theory Spec2Isabelle
  imports
    Complex_Main
    "HOL-Library.List_Lexorder"
    "HOL-Library.Product_Lexorder"
begin

section \<open>The durable store (dog\_cache.py)\<close>

text \<open>
  A Python \<^verbatim>\<open>str\<close> is the list of its code points, each a natural number, and
  \<open>py\<close> gives the \<^verbatim>\<open>str\<close> of an ASCII literal. Lists of code points are compared
  lexicographically, which is how Python compares \<^verbatim>\<open>str\<close> values and how SQLite's
  default collation orders \<^verbatim>\<open>TEXT\<close>.

  The table \<^verbatim>\<open>dogs\<close> is the list of its rows in rowid order. A row has the four
  columns of the \<^verbatim>\<open>CREATE TABLE\<close> statement. \<^verbatim>\<open>breed\<close> is the primary key,
  so a table the database can hold has no two rows with the same breed
  (\<open>primary_key\<close> below).
\<close>

type_synonym pystr = "nat list"

definition py :: "string \<Rightarrow> pystr" where
  "py literal = map of_char literal"

type_synonym timestamp = nat

record dog =
  breed :: pystr
  image :: pystr

record dog_row =
  row_breed :: pystr
  row_image :: pystr
  created_at :: timestamp
  updated_at :: timestamp

type_synonym dogs_table = "dog_row list"

definition primary_key :: "dogs_table \<Rightarrow> bool" where
  "primary_key t = distinct (map row_breed t)"

text \<open>
  The clock as the store sees it while one batch is written: \<open>datetime_now i\<close> is what
  \<^verbatim>\<open>datetime.now()\<close> returns when the parameter tuple of the \<open>i\<close>-th dog is built, and
  \<open>current_timestamp i\<close> is SQLite's \<^verbatim>\<open>CURRENT_TIMESTAMP\<close> when the \<open>i\<close>-th statement
  runs (the default of \<^verbatim>\<open>created_at\<close>, which the statement does not set).
\<close>

record clock =
  datetime_now :: "nat \<Rightarrow> timestamp"
  current_timestamp :: "nat \<Rightarrow> timestamp"

text \<open>\<^verbatim>\<open>init_db\<close>: \<^verbatim>\<open>CREATE TABLE IF NOT EXISTS\<close> on the database file, which either has
  no table yet (\<open>None\<close>) or has one, which is kept.\<close>

definition init_db :: "dogs_table option \<Rightarrow> dogs_table" where
  "init_db file = (case file of None \<Rightarrow> [] | Some t \<Rightarrow> t)"

text \<open>
  One \<^verbatim>\<open>INSERT OR REPLACE INTO dogs (breed, image, updated_at) VALUES (?, ?, ?)\<close>:
  the rows that would violate the primary key are deleted, the new row is appended, and
  the statement counts as one modified row whether or not a row was replaced.
\<close>

definition insert_or_replace :: "timestamp \<Rightarrow> pystr \<times> pystr \<times> timestamp \<Rightarrow> dogs_table \<Rightarrow> dogs_table" where
  "insert_or_replace cts params t =
     (case params of (b, i, u) \<Rightarrow>
        filter (\<lambda>r. row_breed r \<noteq> b) t
          @ [\<lparr>row_breed = b, row_image = i, created_at = cts, updated_at = u\<rparr>])"

text \<open>\<^verbatim>\<open>cursor.executemany\<close>: the statement runs once per parameter tuple, in order, and
  \<^verbatim>\<open>cursor.rowcount\<close> is the sum of the modified-row counts of the runs.\<close>

fun executemany :: "(nat \<Rightarrow> timestamp) \<Rightarrow> nat \<Rightarrow> (pystr \<times> pystr \<times> timestamp) list \<Rightarrow> dogs_table \<Rightarrow> int \<times> dogs_table" where
  "executemany cts n [] t = (0, t)"
| "executemany cts n (params # rest) t =
     (case executemany cts (Suc n) rest (insert_or_replace (cts n) params t) of
        (rowcount, t') \<Rightarrow> (1 + rowcount, t'))"

definition add_dogs_batch :: "clock \<Rightarrow> dog list \<Rightarrow> dogs_table \<Rightarrow> int \<times> dogs_table" where
  "add_dogs_batch clk dogs t =
     (if dogs = [] then (0, t)
      else executemany (current_timestamp clk) 0
             (map (\<lambda>(i, dog). (breed dog, image dog, datetime_now clk i)) (enumerate 0 dogs)) t)"

text \<open>
  A Python \<^verbatim>\<open>dict\<close> of strings is an association list with distinct keys, in insertion
  order. \<open>dict_setitem\<close> is \<^verbatim>\<open>d[k] = v\<close>: an existing key keeps its place and takes the
  new value, a new key goes to the end.
\<close>

type_synonym py_dict = "(pystr \<times> pystr) list"

definition dict_setitem :: "py_dict \<Rightarrow> pystr \<Rightarrow> pystr \<Rightarrow> py_dict" where
  "dict_setitem d k v =
     (if k \<in> fst ` set d then map (\<lambda>(k', v'). if k' = k then (k', v) else (k', v')) d
      else d @ [(k, v)])"


text \<open>\<^verbatim>\<open>SELECT breed, image FROM dogs ORDER BY breed\<close>, then \<^verbatim>\<open>fetchall\<close>.\<close>

definition select_breed_image :: "dogs_table \<Rightarrow> (pystr \<times> pystr) list" where
  "select_breed_image t = map (\<lambda>r. (row_breed r, row_image r)) (sort_key row_breed t)"

text \<open>\<^verbatim>\<open>get_all_dogs_dict\<close> returns the dictionary \<^verbatim>\<open>{row[0]: row[1] for row in results}\<close>
  together with the table, which the \<^verbatim>\<open>SELECT\<close> only reads.\<close>

definition get_all_dogs_dict :: "dogs_table \<Rightarrow> py_dict \<times> dogs_table" where
  "get_all_dogs_dict t =
     (fold (\<lambda>row d. dict_setitem d (fst row) (snd row)) (select_breed_image t) [], t)"


section \<open>The read endpoint (app.py, \<^verbatim>\<open>get_dogs\<close>)\<close>

definition ITEMS_PER_PAGE :: int where
  "ITEMS_PER_PAGE = 15"

text \<open>
  Python's slice \<^verbatim>\<open>xs[start:stop]\<close> on a list of length \<open>n\<close>: a negative bound counts
  from the end (\<open>n\<close> is added to it), and either bound is then clamped to \<open>0..n\<close>. The
  slice is empty when the clamped stop is not after the clamped start; it never raises.
\<close>

definition slice_bound :: "int \<Rightarrow> int \<Rightarrow> nat" where
  "slice_bound n i = nat (if i < 0 then max (i + n) 0 else min i n)"

definition py_slice :: "'a list \<Rightarrow> int \<Rightarrow> int \<Rightarrow> 'a list" where
  "py_slice xs start stop =
     (let n = int (length xs); lo = slice_bound n start; hi = slice_bound n stop
      in take (hi - lo) (drop lo xs))"

text \<open>
  \<^verbatim>\<open>request.args.get("page", type=int, default=1)\<close> is the integer the query string
  gives, or the default 1 when the parameter is missing or is not an integer; the
  argument of \<open>get_dogs\<close> is that integer, if any. \<^verbatim>\<open>sorted\<close> orders the
  \<^verbatim>\<open>(breed, image)\<close> tuples lexicographically. The result is the JSON body and the
  status code; nothing in the body of the \<^verbatim>\<open>try\<close> raises in this model, so the
  status is always 200.
\<close>

definition get_dogs :: "int option \<Rightarrow> dogs_table \<Rightarrow> dog list \<times> int" where
  "get_dogs page_arg t =
     (let page = (case page_arg of None \<Rightarrow> 1 | Some p \<Rightarrow> p);
          all_dogs_dict = fst (get_all_dogs_dict t);
          all_dogs = map (\<lambda>(b, i). \<lparr>breed = b, image = i\<rparr>) (sort all_dogs_dict);
          start_idx = (page - 1) * ITEMS_PER_PAGE;
          end_idx = start_idx + ITEMS_PER_PAGE;
          page_data = py_slice all_dogs start_idx end_idx
      in (page_data, 200))"

section \<open>The validator (app.py, \<^verbatim>\<open>validate_and_normalize_dog_data\<close>)\<close>

text \<open>
  What \<^verbatim>\<open>response.json()\<close> can return: the Python values of the JSON kinds. An object
  is the list of its members; \<open>dict_get\<close> reads a member as \<^verbatim>\<open>data.get(key)\<close> does,
  with \<^verbatim>\<open>None\<close> (here \<open>JNull\<close>) for a key that is absent.
\<close>

datatype json =
    JNull
  | JBool bool
  | JInt int
  | JFloat real
  | JStr pystr
  | JArr "json list"
  | JObj "(pystr \<times> json) list"

fun truthy :: "json \<Rightarrow> bool" where
  "truthy JNull = False"
| "truthy (JBool b) = b"
| "truthy (JInt n) = (n \<noteq> 0)"
| "truthy (JFloat x) = (x \<noteq> 0)"
| "truthy (JStr s) = (s \<noteq> [])"
| "truthy (JArr xs) = (xs \<noteq> [])"
| "truthy (JObj members) = (members \<noteq> [])"

fun isinstance_dict :: "json \<Rightarrow> bool" where
  "isinstance_dict (JObj members) = True"
| "isinstance_dict _ = False"

fun isinstance_str :: "json \<Rightarrow> bool" where
  "isinstance_str (JStr s) = True"
| "isinstance_str _ = False"

text \<open>The code points of a value that is a string. The code reads them only behind
  \<^verbatim>\<open>isinstance(..., str)\<close>, so the second equation is never what a result depends on.\<close>

fun str_value :: "json \<Rightarrow> pystr" where
  "str_value (JStr s) = s"
| "str_value _ = []"

fun dict_get :: "json \<Rightarrow> pystr \<Rightarrow> json" where
  "dict_get (JObj members) key = (case map_of members key of None \<Rightarrow> JNull | Some v \<Rightarrow> v)"
| "dict_get _ key = JNull"

text \<open>
  Python's Unicode tables are not part of the repository, and they change with the
  version of Python: they are parameters of the model. \<open>isspace u c\<close> says whether
  \<^verbatim>\<open>str.isspace\<close> holds of the code point \<open>c\<close>, and \<open>lower u s\<close> is \<^verbatim>\<open>s.lower()\<close>, a
  function of the whole string (it is not made code point by code point: a capital sigma
  lowers by its place in the word, and U+0130 lowers to two code points). Nothing is
  assumed of either.
\<close>

record unicode_tables =
  isspace :: "nat \<Rightarrow> bool"
  lower :: "pystr \<Rightarrow> pystr"

text \<open>\<^verbatim>\<open>s.strip()\<close> drops the white space at both ends.\<close>

definition strip :: "unicode_tables \<Rightarrow> pystr \<Rightarrow> pystr" where
  "strip u s = rev (dropWhile (isspace u) (rev (dropWhile (isspace u) s)))"

text \<open>\<open>startswith s pat\<close> is \<^verbatim>\<open>s.startswith(pat)\<close>, and \<open>str_in pat s\<close> is Python's
  \<^verbatim>\<open>pat in s\<close> on strings: \<open>pat\<close> occurs in \<open>s\<close> as a contiguous run.\<close>

fun startswith :: "pystr \<Rightarrow> pystr \<Rightarrow> bool" where
  "startswith s [] = True"
| "startswith [] (p # pat) = False"
| "startswith (c # s) (p # pat) = (c = p \<and> startswith s pat)"

fun str_in :: "pystr \<Rightarrow> pystr \<Rightarrow> bool" where
  "str_in pat [] = (pat = [])"
| "str_in pat (c # s) = (startswith (c # s) pat \<or> str_in pat s)"

definition validate_and_normalize_dog_data :: "unicode_tables \<Rightarrow> json \<Rightarrow> dog option" where
  "validate_and_normalize_dog_data u data =
     (if \<not> isinstance_dict data then None
      else
        let breed = dict_get data (py ''breed'');
            image = dict_get data (py ''image'')
        in
          if \<not> truthy breed \<or> \<not> isinstance_str breed \<or> length (strip u (str_value breed)) = 0
          then None
          else
            let breed = strip u (str_value breed)
            in
              if length breed > 60 \<or> str_in (py ''http://'') (lower u breed)
                  \<or> str_in (py ''https://'') (lower u breed)
                  \<or> list_ex (\<lambda>ext. str_in ext (lower u breed))
                       [py ''.jpg'', py ''.jpeg'', py ''.png'', py ''.gif'', py ''.webp'']
              then None
              else
                let image =
                      (if \<not> truthy image \<or> \<not> isinstance_str image
                          \<or> length (strip u (str_value image)) = 0
                       then [] else strip u (str_value image))
                in Some \<lparr>breed = breed, image = image\<rparr>)"

subsection \<open>The validator's contract, in the specification's words\<close>

text \<open>
  \<open>contains_ignoring_case u s pat\<close>, for a \<open>pat\<close> in lower case: \<open>s\<close>, once in lower
  case, has \<open>pat\<close> as a contiguous run. The case that is ignored is the one Python's
  lower-casing removes. \<open>corruption_markers\<close> are the two URL schemes and the five
  image-file extensions. \<open>spec_rejected\<close> lists the grounds for rejection, read on the
  trimmed breed, and \<open>spec_record\<close> is the record of an input that is not rejected.
\<close>

definition contains_ignoring_case :: "unicode_tables \<Rightarrow> pystr \<Rightarrow> pystr \<Rightarrow> bool" where
  "contains_ignoring_case u s pat = (\<exists>before after. lower u s = before @ pat @ after)"

definition corruption_markers :: "pystr list" where
  "corruption_markers =
     [py ''http://'', py ''https://'', py ''.jpg'', py ''.jpeg'', py ''.png'', py ''.gif'',
      py ''.webp'']"

definition spec_rejected :: "unicode_tables \<Rightarrow> json \<Rightarrow> bool" where
  "spec_rejected u raw =
     (case raw of
        JObj members \<Rightarrow>
          (case map_of members (py ''breed'') of
             None \<Rightarrow> True
           | Some (JStr b) \<Rightarrow>
               strip u b = [] \<or> 60 < length (strip u b)
               \<or> (\<exists>marker \<in> set corruption_markers. contains_ignoring_case u (strip u b) marker)
           | Some _ \<Rightarrow> True)
      | _ \<Rightarrow> True)"

definition spec_image :: "unicode_tables \<Rightarrow> json \<Rightarrow> pystr" where
  "spec_image u raw =
     (case raw of
        JObj members \<Rightarrow>
          (case map_of members (py ''image'') of
             Some (JStr i) \<Rightarrow> (if strip u i = [] then [] else strip u i)
           | _ \<Rightarrow> [])
      | _ \<Rightarrow> [])"

definition spec_record :: "unicode_tables \<Rightarrow> json \<Rightarrow> dog" where
  "spec_record u raw =
     \<lparr>breed = strip u (str_value (dict_get raw (py ''breed''))), image = spec_image u raw\<rparr>"

section \<open>The fetch client (app.py, \<^verbatim>\<open>fetch_with_retry\<close>)\<close>

text \<open>
  One \<^verbatim>\<open>requests.get\<close> either raises (a timeout, a refused connection) or returns a
  response: its status code and what \<^verbatim>\<open>response.json()\<close> gives, \<open>None\<close> when that call
  raises on a malformed body.

  The upstream is a function of the number of requests the process has already made and
  of the page asked: \<open>up n page\<close> is the outcome of the request made after \<open>n\<close> earlier
  ones. What the process does to the outside is kept as a trace, the list of its requests,
  sleeps and some of its log lines, oldest first.
\<close>

datatype http_result =
    RequestException
  | Response int "json option"

datatype event =
    Request int
  | Sleep int
  | LogFailed int
  | LogSkipping int int
  | LogStopping int int
  | LogEmptyPage int
  | LogProcessed int int int

type_synonym upstream_api = "nat \<Rightarrow> int \<Rightarrow> http_result"

definition MAX_RETRIES :: nat where
  "MAX_RETRIES = 3"

definition RETRY_DELAY :: int where
  "RETRY_DELAY = 1"

fun requested :: "event list \<Rightarrow> int list" where
  "requested [] = []"
| "requested (Request page # tr) = page # requested tr"
| "requested (e # tr) = requested tr"

definition requests_made :: "event list \<Rightarrow> nat" where
  "requests_made tr = length (requested tr)"

text \<open>The data of an attempt that succeeds: status 200 and a body that is a JSON array.
  Every other outcome is a failed attempt, whether it is logged or caught.\<close>

fun attempt_data :: "http_result \<Rightarrow> json list option" where
  "attempt_data RequestException = None"
| "attempt_data (Response status_code body) =
     (if status_code = 200
      then (case body of Some (JArr data) \<Rightarrow> Some data | _ \<Rightarrow> None)
      else None)"

text \<open>The \<^verbatim>\<open>for attempt in range(1, MAX_RETRIES + 1)\<close> loop over the attempts that are
  left; falling out of the loop logs the failure and returns \<^verbatim>\<open>None\<close>.\<close>

fun attempts :: "upstream_api \<Rightarrow> int \<Rightarrow> nat list \<Rightarrow> event list \<Rightarrow> json list option \<times> event list" where
  "attempts up page [] tr = (None, tr @ [LogFailed page])"
| "attempts up page (attempt # rest) tr =
     (case attempt_data (up (requests_made tr) page) of
        Some data \<Rightarrow> (Some data, tr @ [Request page])
      | None \<Rightarrow>
          attempts up page rest
            (if attempt < MAX_RETRIES
             then tr @ [Request page, Sleep (RETRY_DELAY * 2 ^ (attempt - 1))]
             else tr @ [Request page]))"

definition fetch_with_retry :: "upstream_api \<Rightarrow> int \<Rightarrow> event list \<Rightarrow> json list option \<times> event list" where
  "fetch_with_retry up page tr = attempts up page [1..<MAX_RETRIES + 1] tr"

text \<open>A failed attempt in the specification's words: a network error, a status other
  than 200, or a body that is not an array.\<close>

fun attempt_fails :: "http_result \<Rightarrow> bool" where
  "attempt_fails RequestException = True"
| "attempt_fails (Response status_code None) = True"
| "attempt_fails (Response status_code (Some (JArr data))) = (status_code \<noteq> 200)"
| "attempt_fails (Response status_code (Some body)) = True"

section \<open>The ingestion run (app.py, \<^verbatim>\<open>fetch_dogs_from_api\<close>)\<close>

text \<open>
  The state of the process that a run reads and writes: the trace, the table behind
  \<^verbatim>\<open>db_cache\<close> and the global \<^verbatim>\<open>last_fetch_time\<close>. The environment of a run is the
  upstream, Python's Unicode tables, the clock readings while the batch of a page is
  written, and the time at which the run ends.
\<close>

record app_state =
  trace :: "event list"
  db_cache :: dogs_table
  last_fetch_time :: "timestamp option"

record environment =
  upstream :: upstream_api
  unicode :: unicode_tables
  batch_clock :: "int \<Rightarrow> clock"
  finish_time :: timestamp

definition MAX_EXTERNAL_PAGES :: int where
  "MAX_EXTERNAL_PAGES = 50"

text \<open>The local variables of the loop over the pages, with the process state.\<close>

record loop_state =
  consecutive_failures :: int
  total_fetched :: int
  app :: app_state

datatype control = Continue | Break

text \<open>The body of \<^verbatim>\<open>for external_page in range(start_page, end_page)\<close>, with how it
  leaves: \<open>Break\<close> for \<^verbatim>\<open>break\<close>, \<open>Continue\<close> for \<^verbatim>\<open>continue\<close> and for reaching the end
  of the body.\<close>

definition process_page :: "environment \<Rightarrow> int \<Rightarrow> loop_state \<Rightarrow> control \<times> loop_state" where
  "process_page env external_page st =
     (case fetch_with_retry (upstream env) external_page (trace (app st)) of
        (None, tr) \<Rightarrow>
          let failures = consecutive_failures st + 1;
              tr = tr @ [LogSkipping external_page failures]
          in
            if failures \<ge> 10
            then (Break, st\<lparr>consecutive_failures := failures,
                           app := (app st)\<lparr>trace := tr @ [LogStopping failures external_page]\<rparr>\<rparr>)
            else (Continue, st\<lparr>consecutive_failures := failures, app := (app st)\<lparr>trace := tr\<rparr>\<rparr>)
      | (Some external_data, tr) \<Rightarrow>
          if length external_data = 0
          then (Break, st\<lparr>consecutive_failures := 0,
                         app := (app st)\<lparr>trace := tr @ [LogEmptyPage external_page]\<rparr>\<rparr>)
          else
            let validated_dogs = List.map_filter (validate_and_normalize_dog_data (unicode env)) external_data
            in
              if validated_dogs \<noteq> []
              then
                (case add_dogs_batch (batch_clock env external_page) validated_dogs (db_cache (app st)) of
                   (added_count, table) \<Rightarrow>
                     (Continue,
                      st\<lparr>consecutive_failures := 0,
                         total_fetched := total_fetched st + added_count,
                         app := (app st)
                           \<lparr>trace := tr @ [LogProcessed external_page (int (length validated_dogs))
                                            (int (length external_data))],
                            db_cache := table\<rparr>\<rparr>))
              else (Continue, st\<lparr>consecutive_failures := 0, app := (app st)\<lparr>trace := tr\<rparr>\<rparr>))"

fun fetch_pages :: "environment \<Rightarrow> int list \<Rightarrow> loop_state \<Rightarrow> loop_state" where
  "fetch_pages env [] st = st"
| "fetch_pages env (external_page # rest) st =
     (case process_page env external_page st of
        (Break, st') \<Rightarrow> st'
      | (Continue, st') \<Rightarrow> fetch_pages env rest st')"

text \<open>\<^verbatim>\<open>if max_pages:\<close> is false for \<^verbatim>\<open>None\<close> and for 0. \<^verbatim>\<open>range(start_page, end_page)\<close>
  is the list of the integers from \<open>start_page\<close> to \<open>end_page - 1\<close>.\<close>

definition fetch_dogs_from_api :: "environment \<Rightarrow> int \<Rightarrow> int option \<Rightarrow> app_state \<Rightarrow> int \<times> app_state" where
  "fetch_dogs_from_api env start_page max_pages s =
     (let end_page =
            (case max_pages of
               None \<Rightarrow> MAX_EXTERNAL_PAGES + 1
             | Some m \<Rightarrow>
                 if m \<noteq> 0 then min (start_page + m) (MAX_EXTERNAL_PAGES + 1)
                 else MAX_EXTERNAL_PAGES + 1);
          final = fetch_pages env [start_page..end_page - 1]
                    \<lparr>consecutive_failures = 0, total_fetched = 0, app = s\<rparr>;
          s' = (app final)\<lparr>last_fetch_time := Some (finish_time env)\<rparr>;
          total_in_cache = length (fst (get_all_dogs_dict (db_cache s')))
      in (total_fetched final, s'))"

section \<open>The job scheduler (background\_jobs.py)\<close>

text \<open>
  A job's function is a callable with its \<^verbatim>\<open>__name__\<close>. Calling it either returns or
  raises an exception (of a class derived from \<^verbatim>\<open>Exception\<close>, the ones the loop's
  handlers catch) with a message, and changes the world \<open>'w\<close> it works on: the store, the
  network, anything but the scheduler itself.

  A job is the dictionary \<^verbatim>\<open>add_job\<close> builds, with the same five keys. The clock is
  \<^verbatim>\<open>time.time()\<close>, a real number of seconds.
\<close>

datatype outcome = Returned | Raised string

record 'w callable =
  fn_name :: string
  fn_call :: "'w \<Rightarrow> outcome \<times> 'w"

record 'w job =
  func :: "'w callable"
  interval :: "int option"
  name :: string
  last_run :: real
  run_once :: bool

record 'w scheduler =
  jobs :: "'w job list"
  running :: bool

text \<open>\<^verbatim>\<open>__init__\<close>, and \<^verbatim>\<open>name or func.__name__\<close>: the name given, unless it is missing
  or empty.\<close>

definition new_scheduler :: "'w scheduler" where
  "new_scheduler = \<lparr>jobs = [], running = False\<rparr>"

definition name_or :: "string option \<Rightarrow> 'w callable \<Rightarrow> string" where
  "name_or given f = (case given of None \<Rightarrow> fn_name f | Some n \<Rightarrow> if n = [] then fn_name f else n)"

definition add_job :: "'w callable \<Rightarrow> int option \<Rightarrow> string option \<Rightarrow> 'w scheduler \<Rightarrow> 'w scheduler" where
  "add_job f interval_seconds given sched =
     sched\<lparr>jobs := jobs sched @
       [\<lparr>func = f,
         interval = interval_seconds,
         name = name_or given f,
         last_run = 0,
         run_once = (interval_seconds = None)\<rparr>]\<rparr>"

definition start :: "'w scheduler \<Rightarrow> 'w scheduler" where
  "start sched = (if running sched then sched else sched\<lparr>running := True\<rparr>)"

definition stop :: "'w scheduler \<Rightarrow> 'w scheduler" where
  "stop sched = sched\<lparr>running := False\<rparr>"

text \<open>The log lines of \<^verbatim>\<open>_run_loop\<close>, each with the job's name; the two error lines
  carry the exception's message. \<open>TypeError\<close> is the one exception that can leave the
  loop: comparing the elapsed time with an interval that is \<^verbatim>\<open>None\<close> is outside both
  \<^verbatim>\<open>try\<close> blocks.\<close>

datatype job_event =
    RunningOneTime string
  | CompletedOneTime string
  | ErrorOneTime string string
  | RunningBackground string
  | CompletedBackground string
  | ErrorBackground string string

datatype loop_error = TypeError

fun event_job :: "job_event \<Rightarrow> string" where
  "event_job (RunningOneTime n) = n"
| "event_job (CompletedOneTime n) = n"
| "event_job (ErrorOneTime n e) = n"
| "event_job (RunningBackground n) = n"
| "event_job (CompletedBackground n) = n"
| "event_job (ErrorBackground n e) = n"

text \<open>
  The body of \<^verbatim>\<open>for job in self.jobs[:]\<close> for one job, at the tick whose clock reading is
  \<open>current_time\<close>. The result is the job as it stays in \<^verbatim>\<open>self.jobs\<close> (\<open>None\<close> when
  \<^verbatim>\<open>self.jobs.remove(job)\<close> has taken it out), the lines logged and the world after the
  call.
\<close>

definition run_job :: "real \<Rightarrow> 'w job \<Rightarrow> 'w \<Rightarrow> loop_error + ('w job option \<times> job_event list \<times> 'w)" where
  "run_job current_time job w =
     (if run_once job
      then
        (case fn_call (func job) w of
           (Returned, w') \<Rightarrow>
             Inr (None, [RunningOneTime (name job), CompletedOneTime (name job)], w')
         | (Raised e, w') \<Rightarrow>
             Inr (None, [RunningOneTime (name job), ErrorOneTime (name job) e], w'))
      else
        (case interval job of
           None \<Rightarrow> Inl TypeError
         | Some seconds \<Rightarrow>
             let time_since_last_run = current_time - last_run job
             in
               if time_since_last_run \<ge> real_of_int seconds
               then
                 (case fn_call (func job) w of
                    (Returned, w') \<Rightarrow>
                      Inr (Some (job\<lparr>last_run := current_time\<rparr>),
                           [RunningBackground (name job), CompletedBackground (name job)], w')
                  | (Raised e, w') \<Rightarrow>
                      Inr (Some job, [RunningBackground (name job), ErrorBackground (name job) e], w'))
               else Inr (Some job, [], w)))"

text \<open>
  One tick: the jobs of the snapshot in order. The jobs that stay keep their order, so
  the list returned is \<^verbatim>\<open>self.jobs\<close> after the tick; a job's dictionary is changed only
  while that job is handled, and an action does not reach the scheduler.
\<close>

fun run_jobs :: "real \<Rightarrow> 'w job list \<Rightarrow> 'w \<Rightarrow> loop_error + ('w job list \<times> job_event list \<times> 'w)" where
  "run_jobs current_time [] w = Inr ([], [], w)"
| "run_jobs current_time (job # rest) w =
     (case run_job current_time job w of
        Inl err \<Rightarrow> Inl err
      | Inr (kept, evs, w') \<Rightarrow>
          (case run_jobs current_time rest w' of
             Inl err \<Rightarrow> Inl err
           | Inr (jobs', evs', w'') \<Rightarrow>
               Inr ((case kept of None \<Rightarrow> [] | Some j \<Rightarrow> [j]) @ jobs', evs @ evs', w'')))"

text \<open>
  \<^verbatim>\<open>_run_loop\<close>, given the clock readings of the ticks it makes before \<^verbatim>\<open>stop()\<close> ends
  it (the \<^verbatim>\<open>time.sleep(1)\<close> between two ticks is what sets the readings apart). The
  result has the lines logged by each tick, one list per tick.
\<close>

fun run_loop :: "real list \<Rightarrow> 'w scheduler \<Rightarrow> 'w \<Rightarrow> loop_error + ('w scheduler \<times> job_event list list \<times> 'w)" where
  "run_loop [] sched w = Inr (sched, [], w)"
| "run_loop (current_time # later) sched w =
     (if \<not> running sched then Inr (sched, [], w)
      else
        (case run_jobs current_time (jobs sched) w of
           Inl err \<Rightarrow> Inl err
         | Inr (jobs', evs, w') \<Rightarrow>
             (case run_loop later (sched\<lparr>jobs := jobs'\<rparr>) w' of
                Inl err \<Rightarrow> Inl err
              | Inr (sched', evss, w'') \<Rightarrow> Inr (sched', evs # evss, w''))))"

text \<open>Registering jobs one after the other, each with the arguments of \<^verbatim>\<open>add_job\<close>; and
  a job as the code can have built it: \<^verbatim>\<open>run_once\<close> is set exactly when there is no
  interval.\<close>

definition register :: "('w callable \<times> int option \<times> string option) list \<Rightarrow> 'w scheduler \<Rightarrow> 'w scheduler" where
  "register regs sched = fold (\<lambda>(f, interval_seconds, given). add_job f interval_seconds given) regs sched"

definition registered_name :: "'w callable \<times> int option \<times> string option \<Rightarrow> string" where
  "registered_name reg = (case reg of (f, interval_seconds, given) \<Rightarrow> name_or given f)"

definition well_formed :: "'w job \<Rightarrow> bool" where
  "well_formed job = (run_once job = (interval job = None))"

section \<open>Example data\<close>

definition example_clock :: clock where
  "example_clock = \<lparr>datetime_now = (\<lambda>i. 100 + i), current_timestamp = (\<lambda>i. 100)\<rparr>"


definition example_table :: dogs_table where
  "example_table =
     [\<lparr>row_breed = py ''beagle'', row_image = py ''b.jpg'', created_at = 1, updated_at = 1\<rparr>,
      \<lparr>row_breed = py ''akita'', row_image = py ''a.jpg'', created_at = 2, updated_at = 2\<rparr>]"

definition example_batch :: "dog list" where
  "example_batch =
     [\<lparr>breed = py ''corgi'', image = py ''c.jpg''\<rparr>, \<lparr>breed = py ''akita'', image = py ''a.jpg''\<rparr>]"


text \<open>Sixteen stored breeds, \<open>a\<close> to \<open>p\<close>: one full page and one more record.\<close>

definition sixteen_dogs :: dogs_table where
  "sixteen_dogs =
     map (\<lambda>c. \<lparr>row_breed = [c], row_image = py ''u'', created_at = 0, updated_at = 0\<rparr>)
       (py ''abcdefghijklmnop'')"

text \<open>
  Tables for the examples: the white space of \<^verbatim>\<open>str.isspace\<close>, and a lower-casing that
  is Python's on the strings the examples use (ASCII letters, and U+0160, which lowers to
  U+0161). The raw records are as the upstream sends them; the breed of the second has
  U+0160 first and the ideographic space U+3000 last.
\<close>

definition example_tables :: unicode_tables where
  "example_tables =
     \<lparr>isspace = (\<lambda>c. c \<in> set ([9, 10, 11, 12, 13, 28, 29, 30, 31, 32, 133, 160, 5760]
                          @ [8192, 8193, 8194, 8195, 8196, 8197, 8198, 8199, 8200, 8201, 8202]
                          @ [8232, 8233, 8239, 8287, 12288])),
      lower = map (\<lambda>c. if 65 \<le> c \<and> c \<le> 90 then c + 32 else if c = 352 then 353 else c)\<rparr>"

definition padded_beagle :: json where
  "padded_beagle = JObj [(py ''breed'', JStr (py ''  Beagle '')), (py ''image'', JInt 3)]"

definition sarplaninac :: json where
  "sarplaninac =
     JObj [(py ''breed'', JStr ([32, 352] @ py ''arplaninac'' @ [12288])),
           (py ''image'', JStr (py '' s.jpg''))]"

definition leaked_url :: json where
  "leaked_url = JObj [(py ''breed'', JStr (py ''x.PNG '')), (py ''image'', JStr (py ''u''))]"

text \<open>An upstream that is down, one that answers 500 to everything, and one whose pages
  hold one record each up to page 6 and nothing from page 7 on.\<close>

definition upstream_down :: upstream_api where
  "upstream_down n page = RequestException"

definition upstream_500 :: upstream_api where
  "upstream_500 n page = Response 500 None"

definition upstream_six_pages :: upstream_api where
  "upstream_six_pages n page =
     (if page < 7
      then Response 200 (Some (JArr [JObj [(py ''breed'', JStr (py ''pug'')), (py ''image'', JStr (py ''p''))]]))
      else Response 200 (Some (JArr [])))"

definition env_down :: environment where
  "env_down = \<lparr>upstream = upstream_down, unicode = example_tables, batch_clock = (\<lambda>page. example_clock), finish_time = 900\<rparr>"

definition env_six_pages :: environment where
  "env_six_pages =
     \<lparr>upstream = upstream_six_pages, unicode = example_tables, batch_clock = (\<lambda>page. example_clock), finish_time = 900\<rparr>"

definition fresh_state :: app_state where
  "fresh_state = \<lparr>trace = [], db_cache = [], last_fetch_time = None\<rparr>"

text \<open>The loop's variables at the start of a run, and after nine and after four failed
  pages in a row.\<close>

definition loop_start :: loop_state where
  "loop_start = \<lparr>consecutive_failures = 0, total_fetched = 0, app = fresh_state\<rparr>"

definition nine_failures :: loop_state where
  "nine_failures = \<lparr>consecutive_failures = 9, total_fetched = 0, app = fresh_state\<rparr>"

definition four_failures :: loop_state where
  "four_failures = \<lparr>consecutive_failures = 4, total_fetched = 0, app = fresh_state\<rparr>"

definition failed_page_3 :: "event list" where
  "failed_page_3 = [Request 3, Sleep 1, Request 3, Sleep 2, Request 3, LogFailed 3]"

text \<open>
  Jobs for the examples, on a world that counts the calls of the action: an action that
  returns, an action that always raises, and the recurring jobs that \<^verbatim>\<open>add_job\<close> builds
  for them. \<open>refresh_scheduler\<close> has the one job with interval 5, registered and then
  started.
\<close>

definition counting_action :: "nat callable" where
  "counting_action = \<lparr>fn_name = ''periodic_cache_refresh_job'', fn_call = (\<lambda>n. (Returned, Suc n))\<rparr>"

definition failing_action :: "nat callable" where
  "failing_action = \<lparr>fn_name = ''flaky'', fn_call = (\<lambda>n. (Raised ''database is locked'', n))\<rparr>"

definition flaky_job :: "nat job" where
  "flaky_job = \<lparr>func = failing_action, interval = Some 2, name = ''flaky'', last_run = 0, run_once = False\<rparr>"

definition refresh_job :: "nat job" where
  "refresh_job = \<lparr>func = counting_action, interval = Some 5, name = ''refresh'', last_run = 0, run_once = False\<rparr>"

definition flaky_scheduler :: "nat scheduler" where
  "flaky_scheduler = \<lparr>jobs = [flaky_job], running = True\<rparr>"

definition refresh_scheduler :: "nat scheduler" where
  "refresh_scheduler = start (add_job counting_action (Some 5) (Some ''refresh'') new_scheduler)"

section \<open>Properties of the durable store\<close>


lemma map_fst_overwrite:
  "map fst (map (\<lambda>(k', v'). if k' = k then (k', v) else (k', v')) d) = map fst d"
  by (induction d) auto

lemma keys_dict_setitem: "fst ` set (dict_setitem d k v) = insert k (fst ` set d)"
proof (cases "k \<in> fst ` set d")
  case True
  have "fst ` set (dict_setitem d k v) = set (map fst (dict_setitem d k v))" by simp
  also have "\<dots> = set (map fst d)" using True by (simp only: dict_setitem_def if_True map_fst_overwrite)
  finally show ?thesis using True by auto
next
  case False
  then show ?thesis by (simp add: dict_setitem_def py_def)
qed



lemma keys_fold_dict_setitem:
  "fst ` set (fold (\<lambda>row d. dict_setitem d (fst row) (snd row)) rows d) = fst ` set d \<union> fst ` set rows"
  by (induction rows arbitrary: d) (auto simp: keys_dict_setitem)

lemma keys_select: "fst ` set (select_breed_image t) = row_breed ` set t"
  by (auto simp: select_breed_image_def image_iff)

lemma keys_snapshot: "fst ` set (fst (get_all_dogs_dict t)) = row_breed ` set t"
  by (simp add: get_all_dogs_dict_def keys_fold_dict_setitem keys_select)


lemma keys_insert_or_replace:
  "row_breed ` set (insert_or_replace c (b, i, u) t) = insert b (row_breed ` set t)"
  by (auto simp: insert_or_replace_def image_iff)

lemma keys_executemany:
  "row_breed ` set (snd (executemany cts n ps t)) = row_breed ` set t \<union> fst ` set ps"
proof (induction ps arbitrary: n t)
  case Nil
  then show ?case by simp
next
  case (Cons p ps)
  obtain b i u where p: "p = (b, i, u)" by (cases p)
  show ?case using Cons.IH[of "Suc n" "insert_or_replace (cts n) p t"]
    by (auto simp: p keys_insert_or_replace case_prod_beta)
qed



lemma pk_init_db: "primary_key (init_db None)"
  by (simp add: primary_key_def init_db_def)















text \<open>
  Claim C9. No store operation removes a key: a key of the snapshot taken before
  \<^verbatim>\<open>add_dogs_batch\<close> is a key of the snapshot taken after it, whatever the batch, and
  taking the snapshot returns the table unchanged.
\<close>

theorem store_never_removes_keys:
  assumes "k \<in> fst ` set (fst (get_all_dogs_dict t))"
  shows "k \<in> fst ` set (fst (get_all_dogs_dict (snd (add_dogs_batch clk batch t))))
         \<and> snd (get_all_dogs_dict t) = t"
proof -
  have "row_breed ` set (snd (add_dogs_batch clk batch t)) \<supseteq> row_breed ` set t"
    by (simp add: add_dogs_batch_def keys_executemany)
  moreover have "k \<in> row_breed ` set t" using assms by (simp only: keys_snapshot)
  ultimately have "k \<in> row_breed ` set (snd (add_dogs_batch clk batch t))" by blast
  then have "k \<in> fst ` set (fst (get_all_dogs_dict (snd (add_dogs_batch clk batch t))))"
    by (simp only: keys_snapshot)
  moreover have "snd (get_all_dogs_dict t) = t" by (simp add: get_all_dogs_dict_def)
  ultimately show ?thesis by simp
qed

theorem store_never_removes_keys_witness:
  "py ''beagle'' \<in> fst ` set (fst (get_all_dogs_dict example_table))
   \<and> py ''beagle'' \<in> fst ` set (fst (get_all_dogs_dict
         (snd (add_dogs_batch example_clock example_batch example_table))))
   \<and> snd (get_all_dogs_dict example_table) = example_table"
proof -
  have present: "py ''beagle'' \<in> fst ` set (fst (get_all_dogs_dict example_table))"
    by (simp add: get_all_dogs_dict_def select_breed_image_def example_table_def dict_setitem_def py_def)
  show ?thesis
    using present store_never_removes_keys[OF present, of example_clock example_batch]
    by simp
qed



section \<open>Properties of the read endpoint\<close>

lemma length_dict_setitem: "length (dict_setitem d k v) \<le> Suc (length d)"
  by (simp add: dict_setitem_def)

lemma length_fold_dict_setitem:
  "length (fold (\<lambda>row d. dict_setitem d (fst row) (snd row)) rows d) \<le> length d + length rows"
proof (induction rows arbitrary: d)
  case Nil
  then show ?case by simp
next
  case (Cons r rows)
  have "length (fold (\<lambda>row d. dict_setitem d (fst row) (snd row)) rows (dict_setitem d (fst r) (snd r)))
        \<le> length (dict_setitem d (fst r) (snd r)) + length rows"
    by (rule Cons.IH)
  also have "\<dots> \<le> Suc (length d) + length rows"
    using length_dict_setitem[of d "fst r" "snd r"] by simp
  finally show ?case by simp
qed

lemma length_snapshot: "length (fst (get_all_dogs_dict t)) \<le> length t"
  using length_fold_dict_setitem[of "select_breed_image t" "[]"]
  by (simp add: get_all_dogs_dict_def select_breed_image_def)

lemma py_slice_past_the_end:
  "0 \<le> lo \<Longrightarrow> int (length xs) \<le> lo \<Longrightarrow> py_slice xs lo hi = []"
  by (simp add: py_slice_def slice_bound_def Let_def)

lemma py_slice_stop_zero: "py_slice xs lo 0 = []"
  by (simp add: py_slice_def slice_bound_def Let_def)

text \<open>The part of the listing's contract that the code keeps: page 0, and any page past
  the last populated one, is the empty list with status 200.\<close>

lemma get_dogs_page_zero: "get_dogs (Some 0) t = ([], 200)"
  by (simp add: get_dogs_def ITEMS_PER_PAGE_def Let_def py_slice_stop_zero)

lemma get_dogs_past_last_page:
  assumes "1 \<le> page" "int (length t) \<le> (page - 1) * 15"
  shows "get_dogs (Some page) t = ([], 200)"
proof -
  let ?all = "map (\<lambda>(b, i). \<lparr>breed = b, image = i\<rparr>) (sort (fst (get_all_dogs_dict t)))"
  have "int (length ?all) \<le> int (length t)"
    using length_snapshot[of t] by simp
  then have "int (length ?all) \<le> (page - 1) * 15" using assms(2) by linarith
  moreover have "0 \<le> (page - 1) * 15" using assms(1) by simp
  ultimately have "py_slice ?all ((page - 1) * 15) ((page - 1) * 15 + 15) = []"
    by (intro py_slice_past_the_end)
  then show ?thesis by (simp add: get_dogs_def ITEMS_PER_PAGE_def Let_def)
qed

text \<open>
  Claim C2. Every page parameter out of range for the 1-indexed listing of 15 items per
  page, page numbers below 1 included, gives the empty list. The code does not keep this
  for negative pages: with sixteen stored breeds, page \<open>-1\<close> is the slice
  \<^verbatim>\<open>all_dogs[-30:-15]\<close>, which Python reads from the end of the list, and the endpoint
  answers with the first record and status 200.
\<close>

theorem get_dogs_negative_page_not_empty:
  "get_dogs (Some (- 1)) sixteen_dogs = ([\<lparr>breed = py ''a'', image = py ''u''\<rparr>], 200)"
  by (simp add: get_dogs_def ITEMS_PER_PAGE_def sixteen_dogs_def get_all_dogs_dict_def
      select_breed_image_def dict_setitem_def py_slice_def slice_bound_def Let_def py_def)

section \<open>Properties of the validator\<close>

lemma startswith_iff: "startswith s pat \<longleftrightarrow> (\<exists>after. s = pat @ after)"
  by (induction s pat rule: startswith.induct) auto

lemma str_in_iff: "str_in pat s \<longleftrightarrow> (\<exists>before after. s = before @ pat @ after)"
proof (induction s)
  case Nil
  then show ?case by auto
next
  case (Cons c s)
  have "(\<exists>before after. c # s = before @ pat @ after)
        \<longleftrightarrow> (\<exists>after. c # s = pat @ after) \<or> (\<exists>before after. s = before @ pat @ after)"
  proof
    assume "\<exists>before after. c # s = before @ pat @ after"
    then obtain before after where e: "c # s = before @ pat @ after" by blast
    show "(\<exists>after. c # s = pat @ after) \<or> (\<exists>before after. s = before @ pat @ after)"
    proof (cases before)
      case Nil
      then show ?thesis using e by auto
    next
      case (Cons a before')
      then have "s = before' @ pat @ after" using e by simp
      then show ?thesis by blast
    qed
  next
    assume "(\<exists>after. c # s = pat @ after) \<or> (\<exists>before after. s = before @ pat @ after)"
    then show "\<exists>before after. c # s = before @ pat @ after"
    proof
      assume "\<exists>after. c # s = pat @ after"
      then obtain after where "c # s = [] @ pat @ after" by auto
      then show ?thesis by blast
    next
      assume "\<exists>before after. s = before @ pat @ after"
      then obtain before after where "c # s = (c # before) @ pat @ after" by auto
      then show ?thesis by blast
    qed
  qed
  then show ?case using Cons.IH by (simp add: startswith_iff)
qed

lemma contains_ignoring_case_iff:
  "contains_ignoring_case u s pat \<longleftrightarrow> str_in pat (lower u s)"
  by (simp add: contains_ignoring_case_def str_in_iff)

lemma corrupted_breed_iff:
  "(str_in (py ''http://'') (lower u b) \<or> str_in (py ''https://'') (lower u b)
      \<or> list_ex (\<lambda>ext. str_in ext (lower u b))
           [py ''.jpg'', py ''.jpeg'', py ''.png'', py ''.gif'', py ''.webp''])
   \<longleftrightarrow> (\<exists>marker \<in> set corruption_markers. contains_ignoring_case u b marker)"
  by (simp add: corruption_markers_def contains_ignoring_case_iff)

lemma strip_Nil: "strip u [] = []"
  by (simp add: strip_def)

lemma normalized_image:
  "(if \<not> truthy (dict_get raw (py ''image'')) \<or> \<not> isinstance_str (dict_get raw (py ''image''))
       \<or> length (strip u (str_value (dict_get raw (py ''image'')))) = 0
    then [] else strip u (str_value (dict_get raw (py ''image'')))) = spec_image u raw"
proof (cases raw)
  case (JObj members)
  show ?thesis
  proof (cases "map_of members (py ''image'')")
    case None
    then show ?thesis by (simp add: JObj spec_image_def)
  next
    case (Some v)
    then show ?thesis by (cases v) (simp_all add: JObj spec_image_def strip_Nil)
  qed
qed (simp_all add: spec_image_def)

lemma validate_string_breed:
  assumes "raw = JObj members" "map_of members (py ''breed'') = Some (JStr b)"
  shows "validate_and_normalize_dog_data u raw
         = (if strip u b = [] \<or> 60 < length (strip u b)
               \<or> (\<exists>marker \<in> set corruption_markers. contains_ignoring_case u (strip u b) marker)
            then None else Some \<lparr>breed = strip u b, image = spec_image u raw\<rparr>)"
proof -
  have g: "dict_get raw (py ''breed'') = JStr b" using assms by simp
  have e: "b = [] \<Longrightarrow> strip u b = []" by (simp add: strip_Nil)
  show ?thesis
    unfolding validate_and_normalize_dog_data_def Let_def normalized_image g
    using e corrupted_breed_iff[of u "strip u b"] by (auto simp: assms(1))
qed

text \<open>
  Claim C3. For every raw input, with strings of any code points and whatever Python's
  tables for white space and lower case are, the validator rejects exactly when the input
  is not an object, or its breed is absent, not a string or empty after trimming, or the
  trimmed breed is longer than 60, or the breed contains one of the seven markers when
  case is ignored; otherwise the record has the trimmed breed and the trimmed image, the
  image being the empty string when it is absent, not a string or empty after trimming.
\<close>

theorem validator_contract:
  "validate_and_normalize_dog_data u raw
   = (if spec_rejected u raw then None else Some (spec_record u raw))"
proof (cases raw)
  case (JObj members)
  show ?thesis
  proof (cases "map_of members (py ''breed'')")
    case None
    then show ?thesis
      by (simp add: JObj validate_and_normalize_dog_data_def spec_rejected_def)
  next
    case (Some v)
    show ?thesis
    proof (cases v)
      case (JStr b)
      have "map_of members (py ''breed'') = Some (JStr b)" using Some JStr by simp
      from validate_string_breed[OF JObj this] show ?thesis
        by (simp add: JObj Some JStr spec_rejected_def spec_record_def)
    qed (simp_all add: JObj Some validate_and_normalize_dog_data_def spec_rejected_def)
  qed
qed (simp_all add: validate_and_normalize_dog_data_def spec_rejected_def)

theorem validator_contract_witness:
  "validate_and_normalize_dog_data example_tables padded_beagle
     = Some \<lparr>breed = py ''Beagle'', image = []\<rparr>
   \<and> \<not> spec_rejected example_tables padded_beagle
   \<and> spec_record example_tables padded_beagle = \<lparr>breed = py ''Beagle'', image = []\<rparr>
   \<and> validate_and_normalize_dog_data example_tables sarplaninac
     = Some \<lparr>breed = 352 # py ''arplaninac'', image = py ''s.jpg''\<rparr>
   \<and> \<not> spec_rejected example_tables sarplaninac
   \<and> validate_and_normalize_dog_data example_tables leaked_url = None
   \<and> spec_rejected example_tables leaked_url"
proof -
  have accepted: "validate_and_normalize_dog_data example_tables padded_beagle
     = Some \<lparr>breed = py ''Beagle'', image = []\<rparr>"
    by (simp add: validate_and_normalize_dog_data_def example_tables_def strip_def py_def Let_def
        padded_beagle_def)
  have unicode: "validate_and_normalize_dog_data example_tables sarplaninac
     = Some \<lparr>breed = 352 # py ''arplaninac'', image = py ''s.jpg''\<rparr>"
    by (simp add: validate_and_normalize_dog_data_def example_tables_def strip_def py_def Let_def
        sarplaninac_def)
  have refused: "validate_and_normalize_dog_data example_tables leaked_url = None"
    by (simp add: validate_and_normalize_dog_data_def example_tables_def strip_def py_def Let_def
        leaked_url_def)
  have a: "\<not> spec_rejected example_tables padded_beagle
           \<and> spec_record example_tables padded_beagle = \<lparr>breed = py ''Beagle'', image = []\<rparr>"
    using accepted validator_contract[of example_tables padded_beagle] by (simp split: if_splits)
  have b: "\<not> spec_rejected example_tables sarplaninac"
    using unicode validator_contract[of example_tables sarplaninac] by (simp split: if_splits)
  have r: "spec_rejected example_tables leaked_url"
    using refused validator_contract[of example_tables leaked_url] by (simp split: if_splits)
  show ?thesis using accepted unicode refused a b r by simp
qed

section \<open>Properties of the fetch client\<close>

lemma requested_append: "requested (xs @ ys) = requested xs @ requested ys"
  by (induction xs rule: requested.induct) simp_all

lemma requests_made_append: "requests_made (xs @ ys) = requests_made xs + requests_made ys"
  by (simp add: requests_made_def requested_append)

lemma attempt_fails_iff: "attempt_fails r \<longleftrightarrow> attempt_data r = None"
  by (induction r rule: attempt_fails.induct) simp_all

lemma requests_made_request: "requests_made (tr @ [Request page]) = Suc (requests_made tr)"
  by (simp add: requests_made_def requested_append)

lemma requests_made_request_sleep:
  "requests_made (tr @ [Request page, Sleep d]) = Suc (requests_made tr)"
  by (simp add: requests_made_def requested_append)

lemma attempts_failed_attempt:
  assumes "attempt_fails (up (requests_made tr) page)"
  shows "attempts up page (attempt # rest) tr
         = attempts up page rest
             (if attempt < MAX_RETRIES
              then tr @ [Request page, Sleep (RETRY_DELAY * 2 ^ (attempt - 1))]
              else tr @ [Request page])"
  using assms by (simp add: attempt_fails_iff)

lemma fetch_with_retry_all_fail:
  assumes "\<forall>i<3. attempt_fails (up (requests_made tr + i) page)"
  shows "fetch_with_retry up page tr
         = (None, tr @ [Request page, Sleep 1, Request page, Sleep 2, Request page, LogFailed page])"
proof -
  let ?t1 = "tr @ [Request page, Sleep 1]"
  let ?t2 = "?t1 @ [Request page, Sleep 2]"
  have a0: "attempt_fails (up (requests_made tr) page)"
    using assms[rule_format, of 0] by simp
  have a1: "attempt_fails (up (requests_made ?t1) page)"
    using assms[rule_format, of 1] by (simp only: requests_made_request_sleep) simp
  have a2: "attempt_fails (up (requests_made ?t2) page)"
    using assms[rule_format, of 2] by (simp only: requests_made_request_sleep) simp
  have r: "[1..<MAX_RETRIES + 1] = [1, 2, 3]"
    by (simp add: MAX_RETRIES_def upt_rec)
  have "fetch_with_retry up page tr = attempts up page [1, 2, 3] tr"
    by (simp only: fetch_with_retry_def r)
  also have "\<dots> = attempts up page [2, 3] ?t1"
    by (simp only: attempts_failed_attempt[of up tr page, OF a0]) (simp add: MAX_RETRIES_def RETRY_DELAY_def)
  also have "\<dots> = attempts up page [3] ?t2"
    by (simp only: attempts_failed_attempt[of up "tr @ [Request page, Sleep 1]" page, OF a1]) (simp add: MAX_RETRIES_def RETRY_DELAY_def)
  also have "\<dots> = attempts up page [] (?t2 @ [Request page])"
    by (simp only: attempts_failed_attempt[of up "(tr @ [Request page, Sleep 1]) @ [Request page, Sleep 2]" page, OF a2]) (simp add: MAX_RETRIES_def)
  also have "\<dots> = (None, tr @ [Request page, Sleep 1, Request page, Sleep 2, Request page, LogFailed page])"
    by simp
  finally show ?thesis .
qed

text \<open>
  Claim C4. When the three attempts for a page all fail (a network error, a status other
  than 200 or a body that is not an array), \<^verbatim>\<open>fetch_with_retry\<close> makes exactly three
  requests, sleeps 1 second after the first and 2 seconds after the second, logs the
  failure and returns \<^verbatim>\<open>None\<close>; there is no fourth request and no sleep after the
  third.
\<close>

theorem fetch_client_three_attempts:
  assumes "\<forall>i<3. attempt_fails (up (requests_made tr + i) page)"
  shows "fetch_with_retry up page tr
         = (None, tr @ [Request page, Sleep 1, Request page, Sleep 2, Request page, LogFailed page])"
  using assms by (rule fetch_with_retry_all_fail)

theorem fetch_client_three_attempts_witness:
  "attempt_fails (upstream_500 0 4) \<and> attempt_fails (upstream_500 1 4) \<and> attempt_fails (upstream_500 2 4)
   \<and> fetch_with_retry upstream_500 4 []
       = (None, [Request 4, Sleep 1, Request 4, Sleep 2, Request 4, LogFailed 4])"
proof -
  have h: "\<forall>i<3. attempt_fails (upstream_500 (requests_made [] + i) 4)"
    by (simp add: upstream_500_def)
  show ?thesis
    using h fetch_client_three_attempts[of upstream_500 "[]" 4] by (simp add: upstream_500_def)
qed

section \<open>Properties of the ingestion run\<close>

lemma attempts_trace:
  "\<exists>evs. snd (attempts up p as tr) = tr @ evs \<and> set (requested evs) \<subseteq> {p}
         \<and> (\<forall>q. LogEmptyPage q \<notin> set evs)"
proof (induction as arbitrary: tr)
  case Nil
  then show ?case by simp
next
  case (Cons a as)
  show ?case
  proof (cases "attempt_data (up (requests_made tr) p)")
    case (Some data)
    then show ?thesis by simp
  next
    case None
    let ?tr' = "if a < MAX_RETRIES then tr @ [Request p, Sleep (RETRY_DELAY * 2 ^ (a - 1))]
                else tr @ [Request p]"
    obtain evs where e: "snd (attempts up p as ?tr') = ?tr' @ evs"
      "set (requested evs) \<subseteq> {p}" "\<forall>q. LogEmptyPage q \<notin> set evs"
      using Cons.IH[of ?tr'] by blast
    let ?pre = "if a < MAX_RETRIES then [Request p, Sleep (RETRY_DELAY * 2 ^ (a - 1))] else [Request p]"
    have "snd (attempts up p (a # as) tr) = tr @ (?pre @ evs)"
      using None e(1) by simp
    moreover have "set (requested (?pre @ evs)) \<subseteq> {p}"
      using e(2) by (simp add: requested_append)
    moreover have "\<forall>q. LogEmptyPage q \<notin> set (?pre @ evs)"
      using e(3) by simp
    ultimately show ?thesis by blast
  qed
qed

lemma fetch_with_retry_trace:
  "\<exists>evs. snd (fetch_with_retry up p tr) = tr @ evs \<and> set (requested evs) \<subseteq> {p}
         \<and> (\<forall>q. LogEmptyPage q \<notin> set evs)"
  unfolding fetch_with_retry_def by (rule attempts_trace)

lemma process_page_failure:
  assumes "fetch_with_retry (upstream env) p (trace (app st)) = (None, tr)"
  shows "process_page env p st =
           (if 10 \<le> consecutive_failures st + 1
            then (Break, st\<lparr>consecutive_failures := consecutive_failures st + 1,
                           app := (app st)\<lparr>trace := tr @ [LogSkipping p (consecutive_failures st + 1),
                                                         LogStopping (consecutive_failures st + 1) p]\<rparr>\<rparr>)
            else (Continue, st\<lparr>consecutive_failures := consecutive_failures st + 1,
                              app := (app st)\<lparr>trace := tr @ [LogSkipping p (consecutive_failures st + 1)]\<rparr>\<rparr>))"
  using assms by (simp add: process_page_def Let_def)

lemma process_page_empty:
  assumes "fetch_with_retry (upstream env) p (trace (app st)) = (Some [], tr)"
  shows "process_page env p st =
           (Break, st\<lparr>consecutive_failures := 0, app := (app st)\<lparr>trace := tr @ [LogEmptyPage p]\<rparr>\<rparr>)"
  using assms by (simp add: process_page_def)

lemma process_page_items:
  assumes "fetch_with_retry (upstream env) p (trace (app st)) = (Some data, tr)" "data \<noteq> []"
  shows "fst (process_page env p st) = Continue
         \<and> consecutive_failures (snd (process_page env p st)) = 0
         \<and> (\<exists>evs. trace (app (snd (process_page env p st))) = tr @ evs \<and> requested evs = []
                \<and> (\<forall>q. LogEmptyPage q \<notin> set evs))"
  using assms by (simp add: process_page_def Let_def case_prod_beta)

lemma process_page_trace:
  "\<exists>evs. trace (app (snd (process_page env p st))) = trace (app st) @ evs
         \<and> set (requested evs) \<subseteq> {p}
         \<and> (\<forall>q. LogEmptyPage q \<in> set evs \<longrightarrow>
                q = p \<and> fst (process_page env p st) = Break
                \<and> requested (dropWhile (\<lambda>e. e \<noteq> LogEmptyPage q) evs) = [])"
proof -
  obtain r tr where f: "fetch_with_retry (upstream env) p (trace (app st)) = (r, tr)"
    by (cases "fetch_with_retry (upstream env) p (trace (app st))")
  obtain fev where fev: "tr = trace (app st) @ fev" "set (requested fev) \<subseteq> {p}"
    "\<forall>q. LogEmptyPage q \<notin> set fev"
    using fetch_with_retry_trace[of "upstream env" p "trace (app st)"] f by auto
  show ?thesis
  proof (cases r)
    case None
    let ?c = "consecutive_failures st + 1"
    let ?evs = "fev @ (if 10 \<le> ?c then [LogSkipping p ?c, LogStopping ?c p] else [LogSkipping p ?c])"
    have "trace (app (snd (process_page env p st))) = trace (app st) @ ?evs"
      using process_page_failure[OF f[unfolded None]] fev(1) by simp
    moreover have "set (requested ?evs) \<subseteq> {p}" using fev(2) by (simp add: requested_append)
    moreover have "\<forall>q. LogEmptyPage q \<notin> set ?evs" using fev(3) by simp
    ultimately show ?thesis by blast
  next
    case (Some data)
    show ?thesis
    proof (cases "data = []")
      case True
      let ?evs = "fev @ [LogEmptyPage p]"
      have pp: "process_page env p st =
           (Break, st\<lparr>consecutive_failures := 0, app := (app st)\<lparr>trace := tr @ [LogEmptyPage p]\<rparr>\<rparr>)"
        using process_page_empty f Some True by simp
      have "trace (app (snd (process_page env p st))) = trace (app st) @ ?evs"
        using pp fev(1) by simp
      moreover have "set (requested ?evs) \<subseteq> {p}" using fev(2) by (simp add: requested_append)
      moreover have "dropWhile (\<lambda>e. e \<noteq> LogEmptyPage p) ?evs = [LogEmptyPage p]"
        using fev(3) by (simp add: dropWhile_append)
      moreover have "\<forall>q. LogEmptyPage q \<in> set ?evs \<longrightarrow> q = p" using fev(3) by auto
      ultimately show ?thesis using pp by auto
    next
      case False
      obtain evs where evs: "trace (app (snd (process_page env p st))) = tr @ evs"
        "requested evs = []" "\<forall>q. LogEmptyPage q \<notin> set evs"
        using process_page_items[OF f[unfolded Some] False] by blast
      have "trace (app (snd (process_page env p st))) = trace (app st) @ (fev @ evs)"
        using evs(1) fev(1) by simp
      moreover have "set (requested (fev @ evs)) \<subseteq> {p}"
        using fev(2) evs(2) by (simp add: requested_append)
      moreover have "\<forall>q. LogEmptyPage q \<notin> set (fev @ evs)" using fev(3) evs(3) by simp
      ultimately show ?thesis by blast
    qed
  qed
qed

lemma fetch_pages_Cons:
  "fetch_pages env (p # rest) st =
     (if fst (process_page env p st) = Break then snd (process_page env p st)
      else fetch_pages env rest (snd (process_page env p st)))"
  by (cases "process_page env p st") (auto split: control.splits)

lemma fetch_pages_trace:
  assumes "sorted ps"
  shows "\<exists>evs. trace (app (fetch_pages env ps st)) = trace (app st) @ evs
           \<and> set (requested evs) \<subseteq> set ps
           \<and> (\<forall>q. LogEmptyPage q \<in> set evs \<longrightarrow>
                  q \<in> set ps \<and> (\<forall>k \<in> set (requested evs). k \<le> q)
                  \<and> requested (dropWhile (\<lambda>e. e \<noteq> LogEmptyPage q) evs) = [])"
  using assms
proof (induction ps arbitrary: st)
  case Nil
  then show ?case by simp
next
  case (Cons p rest)
  let ?st' = "snd (process_page env p st)"
  obtain pev where pev: "trace (app ?st') = trace (app st) @ pev"
    "set (requested pev) \<subseteq> {p}"
    "\<forall>q. LogEmptyPage q \<in> set pev \<longrightarrow>
        q = p \<and> fst (process_page env p st) = Break
        \<and> requested (dropWhile (\<lambda>e. e \<noteq> LogEmptyPage q) pev) = []"
    using process_page_trace[of env p st] by blast
  show ?case
  proof (cases "fst (process_page env p st) = Break")
    case True
    have "trace (app (fetch_pages env (p # rest) st)) = trace (app st) @ pev"
      using True pev(1) by (simp add: fetch_pages_Cons del: fetch_pages.simps)
    moreover have "set (requested pev) \<subseteq> set (p # rest)" using pev(2) by auto
    moreover have "\<forall>q. LogEmptyPage q \<in> set pev \<longrightarrow>
        q \<in> set (p # rest) \<and> (\<forall>k \<in> set (requested pev). k \<le> q)
        \<and> requested (dropWhile (\<lambda>e. e \<noteq> LogEmptyPage q) pev) = []"
      using pev(2,3) by auto
    ultimately show ?thesis by blast
  next
    case False
    have srt: "sorted rest" and le: "\<forall>k \<in> set rest. p \<le> k" using Cons.prems by simp_all
    obtain rev where rev: "trace (app (fetch_pages env rest ?st')) = trace (app ?st') @ rev"
      "set (requested rev) \<subseteq> set rest"
      "\<forall>q. LogEmptyPage q \<in> set rev \<longrightarrow>
          q \<in> set rest \<and> (\<forall>k \<in> set (requested rev). k \<le> q)
          \<and> requested (dropWhile (\<lambda>e. e \<noteq> LogEmptyPage q) rev) = []"
      using Cons.IH[OF srt, of ?st'] by blast
    have noempty: "\<forall>q. LogEmptyPage q \<notin> set pev" using pev(3) False by blast
    have t: "trace (app (fetch_pages env (p # rest) st)) = trace (app st) @ (pev @ rev)"
      using False pev(1) rev(1) by (simp add: fetch_pages_Cons del: fetch_pages.simps)
    have r: "set (requested (pev @ rev)) \<subseteq> set (p # rest)"
      using pev(2) rev(2) by (auto simp: requested_append)
    have e: "\<forall>q. LogEmptyPage q \<in> set (pev @ rev) \<longrightarrow>
        q \<in> set (p # rest) \<and> (\<forall>k \<in> set (requested (pev @ rev)). k \<le> q)
        \<and> requested (dropWhile (\<lambda>e. e \<noteq> LogEmptyPage q) (pev @ rev)) = []"
    proof (intro allI impI)
      fix q
      assume "LogEmptyPage q \<in> set (pev @ rev)"
      then have inr: "LogEmptyPage q \<in> set rev" using noempty by simp
      then have q: "q \<in> set rest" "\<forall>k \<in> set (requested rev). k \<le> q"
        "requested (dropWhile (\<lambda>e. e \<noteq> LogEmptyPage q) rev) = []"
        using rev(3) by blast+
      have "p \<le> q" using q(1) le by blast
      then have "\<forall>k \<in> set (requested (pev @ rev)). k \<le> q"
        using q(2) pev(2) by (auto simp: requested_append)
      moreover have "dropWhile (\<lambda>e. e \<noteq> LogEmptyPage q) (pev @ rev)
                     = dropWhile (\<lambda>e. e \<noteq> LogEmptyPage q) rev"
        using noempty by (simp add: dropWhile_append)
      ultimately show "q \<in> set (p # rest) \<and> (\<forall>k \<in> set (requested (pev @ rev)). k \<le> q)
        \<and> requested (dropWhile (\<lambda>e. e \<noteq> LogEmptyPage q) (pev @ rev)) = []"
        using q(1,3) by simp
    qed
    from t r e show ?thesis by blast
  qed
qed

lemma fetch_dogs_from_api_trace:
  "\<exists>ps. sorted ps \<and>
     trace (snd (fetch_dogs_from_api env start_page max_pages s))
       = trace (app (fetch_pages env ps \<lparr>consecutive_failures = 0, total_fetched = 0, app = s\<rparr>))"
proof -
  let ?e = "(case max_pages of
               None \<Rightarrow> MAX_EXTERNAL_PAGES + 1
             | Some m \<Rightarrow>
                 if m \<noteq> 0 then min (start_page + m) (MAX_EXTERNAL_PAGES + 1)
                 else MAX_EXTERNAL_PAGES + 1)"
  have "trace (snd (fetch_dogs_from_api env start_page max_pages s))
       = trace (app (fetch_pages env [start_page..?e - 1] \<lparr>consecutive_failures = 0, total_fetched = 0, app = s\<rparr>))"
    by (simp add: fetch_dogs_from_api_def Let_def)
  moreover have "sorted [start_page..?e - 1]" by simp
  ultimately show ?thesis by blast
qed

lemma failing_page_fetch:
  assumes "\<forall>n. attempt_fails (up n p)"
  shows "fetch_with_retry up p tr
         = (None, tr @ [Request p, Sleep 1, Request p, Sleep 2, Request p, LogFailed p])"
  using assms by (intro fetch_with_retry_all_fail) simp

lemma failure_streak:
  assumes "\<forall>n. \<forall>k \<in> {q..q + int j}. attempt_fails (upstream env n k)"
    and "consecutive_failures st = 9 - int j"
    and "q + int j \<le> last_page"
  shows "\<exists>evs. trace (app (fetch_pages env [q..last_page] st)) = trace (app st) @ evs
           \<and> requested evs = concat (map (\<lambda>k. [k, k, k]) [q..q + int j])
           \<and> last evs = LogStopping 10 (q + int j)
           \<and> consecutive_failures (fetch_pages env [q..last_page] st) = 10"
  using assms
proof (induction j arbitrary: q st)
  case 0
  have pages: "[q..last_page] = q # [q + 1..last_page]"
    using "0.prems"(3) by (simp add: upto_rec1)
  have f: "fetch_with_retry (upstream env) q (trace (app st))
           = (None, trace (app st) @ [Request q, Sleep 1, Request q, Sleep 2, Request q, LogFailed q])"
    using "0.prems"(1) by (intro failing_page_fetch) simp
  have pp: "process_page env q st =
       (Break, st\<lparr>consecutive_failures := 10,
                  app := (app st)\<lparr>trace := (trace (app st) @ [Request q, Sleep 1, Request q, Sleep 2, Request q, LogFailed q])
                                         @ [LogSkipping q 10, LogStopping 10 q]\<rparr>\<rparr>)"
    using process_page_failure[OF f] "0.prems"(2) by simp
  let ?evs = "[Request q, Sleep 1, Request q, Sleep 2, Request q, LogFailed q,
               LogSkipping q 10, LogStopping 10 q]"
  have "trace (app (fetch_pages env [q..last_page] st)) = trace (app st) @ ?evs"
    by (simp add: pages fetch_pages_Cons pp del: fetch_pages.simps)
  moreover have "requested ?evs = concat (map (\<lambda>k. [k, k, k]) [q..q + int 0])" by simp
  moreover have "last ?evs = LogStopping 10 (q + int 0)" by simp
  moreover have "consecutive_failures (fetch_pages env [q..last_page] st) = 10"
    by (simp add: pages fetch_pages_Cons pp del: fetch_pages.simps)
  ultimately show ?case by blast
next
  case (Suc j)
  have pages: "[q..last_page] = q # [q + 1..last_page]"
    using Suc.prems(3) by (simp add: upto_rec1)
  have f: "fetch_with_retry (upstream env) q (trace (app st))
           = (None, trace (app st) @ [Request q, Sleep 1, Request q, Sleep 2, Request q, LogFailed q])"
    using Suc.prems(1) by (intro failing_page_fetch) simp
  let ?c = "9 - int j"
  let ?pev = "[Request q, Sleep 1, Request q, Sleep 2, Request q, LogFailed q, LogSkipping q ?c]"
  let ?st' = "st\<lparr>consecutive_failures := ?c, app := (app st)\<lparr>trace := trace (app st) @ ?pev\<rparr>\<rparr>"
  have pp: "process_page env q st = (Continue, ?st')"
    using process_page_failure[OF f] Suc.prems(2) by simp
  have step: "fetch_pages env [q..last_page] st = fetch_pages env [q + 1..last_page] ?st'"
    by (simp add: pages fetch_pages_Cons pp del: fetch_pages.simps)
  have h1: "\<forall>n. \<forall>k \<in> {q + 1..q + 1 + int j}. attempt_fails (upstream env n k)"
    using Suc.prems(1) by simp
  have h2: "consecutive_failures ?st' = 9 - int j" by simp
  have h3: "q + 1 + int j \<le> last_page" using Suc.prems(3) by simp
  obtain evs where evs:
    "trace (app (fetch_pages env [q + 1..last_page] ?st')) = trace (app ?st') @ evs"
    "requested evs = concat (map (\<lambda>k. [k, k, k]) [q + 1..q + 1 + int j])"
    "last evs = LogStopping 10 (q + 1 + int j)"
    "consecutive_failures (fetch_pages env [q + 1..last_page] ?st') = 10"
    using Suc.IH[OF h1 h2 h3] by blast
  have ne: "evs \<noteq> []"
  proof
    assume "evs = []"
    then have "concat (map (\<lambda>k. [k, k, k]) [q + 1..q + 1 + int j]) = []" using evs(2) by simp
    then show False by (simp add: upto_rec1)
  qed
  have range: "[q..q + int (Suc j)] = q # [q + 1..q + 1 + int j]"
    by (simp add: upto_rec1 add.commute add.left_commute)
  have "trace (app (fetch_pages env [q..last_page] st)) = trace (app st) @ (?pev @ evs)"
    using step evs(1) by simp
  moreover have "requested (?pev @ evs) = concat (map (\<lambda>k. [k, k, k]) [q..q + int (Suc j)])"
  proof -
    have "requested (?pev @ evs) = [q, q, q] @ requested evs" by simp
    also have "\<dots> = [q, q, q] @ concat (map (\<lambda>k. [k, k, k]) [q + 1..q + 1 + int j])"
      by (simp only: evs(2))
    also have "\<dots> = concat (map (\<lambda>k. [k, k, k]) (q # [q + 1..q + 1 + int j]))"
      by (simp only: list.map concat.simps)
    finally show ?thesis by (simp only: range)
  qed
  moreover have "last (?pev @ evs) = LogStopping 10 (q + int (Suc j))"
    using evs(3) ne by (simp add: add.commute add.left_commute)
  moreover have "consecutive_failures (fetch_pages env [q..last_page] st) = 10"
    using step evs(4) by simp
  ultimately show ?case by blast
qed

text \<open>
  Claim C5, as the code has it. A failed page adds one to \<open>consecutive_failures\<close>.
  When that makes it 10 the loop ends at once, and no further page is requested; below
  10 the page is skipped (the table and the total are as they were) and the loop goes on
  with the next page. A page fetched with items sets the counter to 0 and the loop goes
  on. In particular, when ten pages in a row fail from page \<open>q\<close> on, with the counter
  at 0 before, the pages requested are \<open>q\<close> to \<open>q + 9\<close>, three times each, and the last
  thing the loop does is to log that it stops at page \<open>q + 9\<close>: from page 3, the run stops
  at page 12 and page 13 is never requested.
\<close>

theorem consecutive_failure_policy:
  "(fetch_with_retry (upstream env) p (trace (app st)) = (None, tr) \<longrightarrow>
      consecutive_failures (snd (process_page env p st)) = consecutive_failures st + 1
      \<and> (10 \<le> consecutive_failures st + 1 \<longrightarrow>
           fetch_pages env (p # rest) st
             = st\<lparr>consecutive_failures := consecutive_failures st + 1,
                  app := (app st)\<lparr>trace := tr @ [LogSkipping p (consecutive_failures st + 1),
                                                LogStopping (consecutive_failures st + 1) p]\<rparr>\<rparr>)
      \<and> (consecutive_failures st + 1 < 10 \<longrightarrow>
           fetch_pages env (p # rest) st
             = fetch_pages env rest
                 (st\<lparr>consecutive_failures := consecutive_failures st + 1,
                     app := (app st)\<lparr>trace := tr @ [LogSkipping p (consecutive_failures st + 1)]\<rparr>\<rparr>)))
   \<and> (fetch_with_retry (upstream env) p (trace (app st)) = (Some data, tr) \<and> data \<noteq> [] \<longrightarrow>
        consecutive_failures (snd (process_page env p st)) = 0
        \<and> fetch_pages env (p # rest) st = fetch_pages env rest (snd (process_page env p st)))
   \<and> ((\<forall>n. \<forall>k \<in> {q..q + 9}. attempt_fails (upstream env n k))
        \<and> consecutive_failures st' = 0 \<and> q + 9 \<le> last_page \<longrightarrow>
        (\<exists>evs. trace (app (fetch_pages env [q..last_page] st')) = trace (app st') @ evs
              \<and> requested evs = concat (map (\<lambda>k. [k, k, k]) [q..q + 9])
              \<and> last evs = LogStopping 10 (q + 9)))"
proof (intro conjI impI)
  assume f: "fetch_with_retry (upstream env) p (trace (app st)) = (None, tr)"
  show "consecutive_failures (snd (process_page env p st)) = consecutive_failures st + 1"
    by (simp add: process_page_failure[OF f])
  show "fetch_pages env (p # rest) st
             = st\<lparr>consecutive_failures := consecutive_failures st + 1,
                  app := (app st)\<lparr>trace := tr @ [LogSkipping p (consecutive_failures st + 1),
                                                LogStopping (consecutive_failures st + 1) p]\<rparr>\<rparr>"
    if "10 \<le> consecutive_failures st + 1"
    using that by (simp add: fetch_pages_Cons process_page_failure[OF f] del: fetch_pages.simps)
  show "fetch_pages env (p # rest) st
             = fetch_pages env rest
                 (st\<lparr>consecutive_failures := consecutive_failures st + 1,
                     app := (app st)\<lparr>trace := tr @ [LogSkipping p (consecutive_failures st + 1)]\<rparr>\<rparr>)"
    if "consecutive_failures st + 1 < 10"
    using that by (simp add: fetch_pages_Cons process_page_failure[OF f] del: fetch_pages.simps)
next
  assume a: "fetch_with_retry (upstream env) p (trace (app st)) = (Some data, tr) \<and> data \<noteq> []"
  then have i: "fst (process_page env p st) = Continue"
    "consecutive_failures (snd (process_page env p st)) = 0"
    using process_page_items[of env p st data tr] by simp_all
  show "consecutive_failures (snd (process_page env p st)) = 0" by (rule i(2))
  show "fetch_pages env (p # rest) st = fetch_pages env rest (snd (process_page env p st))"
    using i(1) by (simp add: fetch_pages_Cons del: fetch_pages.simps)
next
  assume a: "(\<forall>n. \<forall>k \<in> {q..q + 9}. attempt_fails (upstream env n k))
        \<and> consecutive_failures st' = 0 \<and> q + 9 \<le> last_page"
  have "\<exists>evs. trace (app (fetch_pages env [q..last_page] st')) = trace (app st') @ evs
           \<and> requested evs = concat (map (\<lambda>k. [k, k, k]) [q..q + int 9])
           \<and> last evs = LogStopping 10 (q + int 9)
           \<and> consecutive_failures (fetch_pages env [q..last_page] st') = 10"
    using a by (intro failure_streak) simp_all
  then show "\<exists>evs. trace (app (fetch_pages env [q..last_page] st')) = trace (app st') @ evs
              \<and> requested evs = concat (map (\<lambda>k. [k, k, k]) [q..q + 9])
              \<and> last evs = LogStopping 10 (q + 9)"
    by auto
qed

text \<open>The equations that run the fetch client and a whole ingestion run on the example
  data.\<close>

lemmas fetch_eval =
  fetch_with_retry_def MAX_RETRIES_def RETRY_DELAY_def requests_made_def upt_rec
  env_down_def upstream_down_def env_six_pages_def upstream_six_pages_def
  loop_start_def nine_failures_def four_failures_def fresh_state_def failed_page_3_def

lemmas run_eval =
  fetch_dogs_from_api_def MAX_EXTERNAL_PAGES_def process_page_def fetch_eval upto.simps
  validate_and_normalize_dog_data_def example_tables_def strip_def py_def Let_def
  add_dogs_batch_def insert_or_replace_def example_clock_def List.map_filter_def

theorem consecutive_failure_policy_witness:
  "fetch_with_retry (upstream env_down) 3 (trace (app nine_failures)) = (None, failed_page_3)
   \<and> fetch_pages env_down [3, 4] nine_failures
       = nine_failures\<lparr>consecutive_failures := 10,
           app := fresh_state\<lparr>trace := failed_page_3 @ [LogSkipping 3 10, LogStopping 10 3]\<rparr>\<rparr>
   \<and> fetch_pages env_down [3] loop_start
       = loop_start\<lparr>consecutive_failures := 1,
           app := fresh_state\<lparr>trace := failed_page_3 @ [LogSkipping 3 1]\<rparr>\<rparr>
   \<and> consecutive_failures (snd (process_page env_six_pages 1 four_failures)) = 0
   \<and> requested (trace (app (fetch_pages env_down [3..50] loop_start)))
       = concat (map (\<lambda>k. [k, k, k]) [3..12])
   \<and> last (trace (app (fetch_pages env_down [3..50] loop_start))) = LogStopping 10 12"
proof -
  have f9: "fetch_with_retry (upstream env_down) 3 (trace (app nine_failures)) = (None, failed_page_3)"
    by (simp add: fetch_eval)
  have f0: "fetch_with_retry (upstream env_down) 3 (trace (app loop_start)) = (None, failed_page_3)"
    by (simp add: fetch_eval)
  have f4: "fetch_with_retry (upstream env_six_pages) 1 (trace (app four_failures))
            = (Some [JObj [(py ''breed'', JStr (py ''pug'')), (py ''image'', JStr (py ''p''))]], [Request 1])"
    by (simp add: fetch_eval)
  have stop: "fetch_pages env_down [3, 4] nine_failures
       = nine_failures\<lparr>consecutive_failures := 10,
           app := fresh_state\<lparr>trace := failed_page_3 @ [LogSkipping 3 10, LogStopping 10 3]\<rparr>\<rparr>"
    using f9 consecutive_failure_policy[where env = env_down and p = 3 and st = nine_failures
        and tr = failed_page_3 and rest = "[4]", THEN conjunct1]
    by (simp add: nine_failures_def)
  have skip: "fetch_pages env_down [3] loop_start
       = loop_start\<lparr>consecutive_failures := 1,
           app := fresh_state\<lparr>trace := failed_page_3 @ [LogSkipping 3 1]\<rparr>\<rparr>"
    using f0 consecutive_failure_policy[where env = env_down and p = 3 and st = loop_start
        and tr = failed_page_3 and rest = "[]", THEN conjunct1]
    by (simp add: loop_start_def)
  have reset: "consecutive_failures (snd (process_page env_six_pages 1 four_failures)) = 0"
    using f4 consecutive_failure_policy[where env = env_six_pages and p = 1 and st = four_failures
        and tr = "[Request 1]" and data = "[JObj [(py ''breed'', JStr (py ''pug'')), (py ''image'', JStr (py ''p''))]]",
        THEN conjunct2, THEN conjunct1]
    by simp
  have down: "\<forall>n. \<forall>k \<in> {3..3 + 9}. attempt_fails (upstream env_down n k)"
    by (simp add: env_down_def upstream_down_def)
  have "\<exists>evs. trace (app (fetch_pages env_down [3..50] loop_start)) = trace (app loop_start) @ evs
              \<and> requested evs = concat (map (\<lambda>k. [k, k, k]) [3..3 + 9])
              \<and> last evs = LogStopping 10 (3 + 9)"
    using down consecutive_failure_policy[where env = env_down and q = 3 and st' = loop_start
        and last_page = 50, THEN conjunct2, THEN conjunct2]
    by (simp add: loop_start_def del: upto.simps upto_rec_numeral)
  then obtain evs where evs: "trace (app (fetch_pages env_down [3..50] loop_start)) = trace (app loop_start) @ evs"
    "requested evs = concat (map (\<lambda>k. [k, k, k]) [3..3 + 9])" "last evs = LogStopping 10 (3 + 9)"
    by blast
  have "trace (app loop_start) = []" by (simp add: loop_start_def fresh_state_def)
  then have e: "trace (app (fetch_pages env_down [3..50] loop_start)) = evs" using evs(1) by simp
  have streak: "requested (trace (app (fetch_pages env_down [3..50] loop_start)))
       = concat (map (\<lambda>k. [k, k, k]) [3..12])
       \<and> last (trace (app (fetch_pages env_down [3..50] loop_start))) = LogStopping 10 12"
    using evs(2,3) by (simp only: e) simp
  show ?thesis using f9 stop skip reset streak by (simp only: simp_thms)
qed

text \<open>With the upstream down, a run from page 3 stops at page 12, not at page 13: the
  last request is for page 12, and the log line names page 12.\<close>

theorem failure_streak_from_page_3_stops_at_page_12:
  "last (requested (trace (snd (fetch_dogs_from_api env_down 3 None fresh_state)))) = 12
   \<and> 13 \<notin> set (requested (trace (snd (fetch_dogs_from_api env_down 3 None fresh_state))))
   \<and> last (trace (snd (fetch_dogs_from_api env_down 3 None fresh_state))) = LogStopping 10 12"
  by (simp add: run_eval)

text \<open>
  Claim C6. A fetch that succeeds with zero items ends the loop at once: the state
  returned is the one after that fetch, with the empty page logged, whatever pages were
  left. And in every run, once an empty page \<open>q\<close> is logged, no request follows, and
  every page the run has requested is at most \<open>q\<close>: an empty page 7 means page 8 is
  never requested.
\<close>

theorem empty_page_stops_run:
  "(fetch_with_retry (upstream env) p (trace (app st)) = (Some [], tr) \<longrightarrow>
      fetch_pages env (p # rest) st
        = st\<lparr>consecutive_failures := 0, app := (app st)\<lparr>trace := tr @ [LogEmptyPage p]\<rparr>\<rparr>)
   \<and> (\<exists>evs. trace (snd (fetch_dogs_from_api env start_page max_pages s)) = trace s @ evs
          \<and> (\<forall>q. LogEmptyPage q \<in> set evs \<longrightarrow>
                (\<forall>k \<in> set (requested evs). k \<le> q)
                \<and> requested (dropWhile (\<lambda>e. e \<noteq> LogEmptyPage q) evs) = []))"
proof
  show "fetch_with_retry (upstream env) p (trace (app st)) = (Some [], tr) \<longrightarrow>
      fetch_pages env (p # rest) st
        = st\<lparr>consecutive_failures := 0, app := (app st)\<lparr>trace := tr @ [LogEmptyPage p]\<rparr>\<rparr>"
    by (simp add: fetch_pages_Cons process_page_empty del: fetch_pages.simps)
next
  obtain ps where ps: "sorted ps"
     "trace (snd (fetch_dogs_from_api env start_page max_pages s))
       = trace (app (fetch_pages env ps \<lparr>consecutive_failures = 0, total_fetched = 0, app = s\<rparr>))"
    using fetch_dogs_from_api_trace by blast
  obtain evs where "trace (app (fetch_pages env ps \<lparr>consecutive_failures = 0, total_fetched = 0, app = s\<rparr>))
      = trace s @ evs"
    "\<forall>q. LogEmptyPage q \<in> set evs \<longrightarrow>
                  q \<in> set ps \<and> (\<forall>k \<in> set (requested evs). k \<le> q)
                  \<and> requested (dropWhile (\<lambda>e. e \<noteq> LogEmptyPage q) evs) = []"
    using fetch_pages_trace[OF ps(1), of env "\<lparr>consecutive_failures = 0, total_fetched = 0, app = s\<rparr>"]
    by auto
  then show "\<exists>evs. trace (snd (fetch_dogs_from_api env start_page max_pages s)) = trace s @ evs
          \<and> (\<forall>q. LogEmptyPage q \<in> set evs \<longrightarrow>
                (\<forall>k \<in> set (requested evs). k \<le> q)
                \<and> requested (dropWhile (\<lambda>e. e \<noteq> LogEmptyPage q) evs) = [])"
    using ps(2) by auto
qed

theorem empty_page_stops_run_witness:
  "fetch_with_retry (upstream env_six_pages) 7 (trace (app loop_start)) = (Some [], [Request 7])
   \<and> fetch_pages env_six_pages [7, 8] loop_start
       = loop_start\<lparr>consecutive_failures := 0, app := fresh_state\<lparr>trace := [Request 7, LogEmptyPage 7]\<rparr>\<rparr>
   \<and> LogEmptyPage 7 \<in> set (trace (snd (fetch_dogs_from_api env_six_pages 1 None fresh_state)))
   \<and> 8 \<notin> set (requested (trace (snd (fetch_dogs_from_api env_six_pages 1 None fresh_state))))
   \<and> requested (dropWhile (\<lambda>e. e \<noteq> LogEmptyPage 7)
        (trace (snd (fetch_dogs_from_api env_six_pages 1 None fresh_state)))) = []"
proof -
  let ?run = "trace (snd (fetch_dogs_from_api env_six_pages 1 None fresh_state))"
  have f: "fetch_with_retry (upstream env_six_pages) 7 (trace (app loop_start)) = (Some [], [Request 7])"
    by (simp add: fetch_eval)
  have stop: "fetch_pages env_six_pages [7, 8] loop_start
       = loop_start\<lparr>consecutive_failures := 0, app := fresh_state\<lparr>trace := [Request 7, LogEmptyPage 7]\<rparr>\<rparr>"
    using f empty_page_stops_run[where env = env_six_pages and p = 7 and st = loop_start
        and tr = "[Request 7]" and rest = "[8]", THEN conjunct1]
    by (simp add: loop_start_def)
  have logged: "LogEmptyPage 7 \<in> set ?run"
    by (simp add: run_eval)
  obtain evs where evs: "?run = trace fresh_state @ evs"
    "\<forall>q. LogEmptyPage q \<in> set evs \<longrightarrow>
         (\<forall>k \<in> set (requested evs). k \<le> q)
         \<and> requested (dropWhile (\<lambda>e. e \<noteq> LogEmptyPage q) evs) = []"
    using empty_page_stops_run[where env = env_six_pages and start_page = 1 and max_pages = None
        and s = fresh_state, THEN conjunct2]
    by blast
  have e: "?run = evs" using evs(1) by (simp add: fresh_state_def)
  have "LogEmptyPage 7 \<in> set evs" using logged by (simp only: e)
  then have "(\<forall>k \<in> set (requested evs). k \<le> 7)
         \<and> requested (dropWhile (\<lambda>e. e \<noteq> LogEmptyPage 7) evs) = []"
    using evs(2) by blast
  then have "8 \<notin> set (requested ?run)
      \<and> requested (dropWhile (\<lambda>e. e \<noteq> LogEmptyPage 7) ?run) = []"
    unfolding e by fastforce
  then show ?thesis using f stop logged by (simp only: simp_thms)
qed

section \<open>Properties of the job scheduler\<close>

lemma jobs_add_job:
  "jobs (add_job f secs given sched)
   = jobs sched @ [\<lparr>func = f, interval = secs, name = name_or given f, last_run = 0,
                    run_once = (secs = None)\<rparr>]"
  by (simp add: add_job_def)

lemma running_add_job: "running (add_job f secs given sched) = running sched"
  by (simp add: add_job_def)

lemma jobs_register:
  "jobs (register regs sched)
   = jobs sched @ map (\<lambda>(f, secs, given).
       \<lparr>func = f, interval = secs, name = name_or given f, last_run = 0, run_once = (secs = None)\<rparr>) regs"
  unfolding register_def
  by (induction regs arbitrary: sched) (auto simp: jobs_add_job)

lemma running_register: "running (register regs sched) = running sched"
  unfolding register_def
proof (induction regs arbitrary: sched)
  case Nil
  show ?case by simp
next
  case (Cons r regs)
  obtain f secs given where r: "r = (f, secs, given)" by (cases r)
  have "running (fold (\<lambda>(f, interval_seconds, given). add_job f interval_seconds given) regs
                  (add_job f secs given sched))
        = running (add_job f secs given sched)"
    by (rule Cons.IH)
  then show ?case by (simp add: r running_add_job)
qed

lemma run_job_well_formed:
  assumes "well_formed job"
  shows "\<exists>kept evs w'. run_job t job w = Inr (kept, evs, w')
           \<and> (\<forall>j. kept = Some j \<longrightarrow> well_formed j \<and> name j = name job)
           \<and> (\<forall>e \<in> set evs. event_job e = name job)"
proof (cases "run_once job")
  case True
  then show ?thesis
    by (cases "fn_call (func job) w"; cases "fst (fn_call (func job) w)")
       (auto simp: run_job_def)
next
  case False
  then obtain seconds where s: "interval job = Some seconds"
    using assms by (auto simp: well_formed_def)
  show ?thesis
    using False s assms
    by (cases "fn_call (func job) w"; cases "fst (fn_call (func job) w)")
       (auto simp: run_job_def Let_def well_formed_def)
qed

lemma run_jobs_well_formed:
  assumes "\<forall>j \<in> set js. well_formed j"
  shows "\<exists>js' evs w'. run_jobs t js w = Inr (js', evs, w')
           \<and> (\<forall>j \<in> set js'. well_formed j \<and> name j \<in> name ` set js)
           \<and> (\<forall>e \<in> set evs. event_job e \<in> name ` set js)"
  using assms
proof (induction js arbitrary: w)
  case Nil
  then show ?case by simp
next
  case (Cons job rest)
  obtain kept evs w1 where j: "run_job t job w = Inr (kept, evs, w1)"
    "\<forall>j. kept = Some j \<longrightarrow> well_formed j \<and> name j = name job"
    "\<forall>e \<in> set evs. event_job e = name job"
    using run_job_well_formed[of job t w] Cons.prems by auto
  obtain js' evs' w2 where r: "run_jobs t rest w1 = Inr (js', evs', w2)"
    "\<forall>j \<in> set js'. well_formed j \<and> name j \<in> name ` set rest"
    "\<forall>e \<in> set evs'. event_job e \<in> name ` set rest"
    using Cons.IH[of w1] Cons.prems by auto
  have "run_jobs t (job # rest) w
        = Inr ((case kept of None \<Rightarrow> [] | Some j \<Rightarrow> [j]) @ js', evs @ evs', w2)"
    by (simp add: j(1) r(1))
  moreover have "\<forall>j \<in> set ((case kept of None \<Rightarrow> [] | Some j \<Rightarrow> [j]) @ js').
                   well_formed j \<and> name j \<in> name ` set (job # rest)"
    using j(2) r(2) by (cases kept) auto
  moreover have "\<forall>e \<in> set (evs @ evs'). event_job e \<in> name ` set (job # rest)"
    using j(3) r(3) by auto
  ultimately show ?case by blast
qed

lemma run_jobs_append:
  "run_jobs t (xs @ ys) w =
     (case run_jobs t xs w of
        Inl err \<Rightarrow> Inl err
      | Inr (xs', evs, w') \<Rightarrow>
          (case run_jobs t ys w' of
             Inl err \<Rightarrow> Inl err
           | Inr (ys', evs', w'') \<Rightarrow> Inr (xs' @ ys', evs @ evs', w'')))"
proof (induction xs arbitrary: w)
  case Nil
  show ?case
  proof (cases "run_jobs t ys w")
    case (Inl err)
    then show ?thesis by simp
  next
    case (Inr r)
    then show ?thesis by (cases r) simp
  qed
next
  case (Cons x xs)
  show ?case
  proof (cases "run_job t x w")
    case (Inl err)
    then show ?thesis by simp
  next
    case (Inr r)
    then obtain kept evs w1 where j: "run_job t x w = Inr (kept, evs, w1)" by (cases r) auto
    show ?thesis
    proof (cases "run_jobs t xs w1")
      case (Inl err)
      then show ?thesis by (simp add: j Cons.IH)
    next
      case (Inr r1)
      then obtain xs' evs1 w2 where x: "run_jobs t xs w1 = Inr (xs', evs1, w2)" by (cases r1) auto
      show ?thesis
      proof (cases "run_jobs t ys w2")
        case (Inl err)
        then show ?thesis by (simp add: j x Cons.IH)
      next
        case (Inr r2)
        then obtain ys' evs2 w3 where y: "run_jobs t ys w2 = Inr (ys', evs2, w3)" by (cases r2) auto
        show ?thesis by (simp add: j x y Cons.IH)
      qed
    qed
  qed
qed

lemma run_loop_well_formed:
  assumes "\<forall>j \<in> set (jobs sched). well_formed j" "running sched"
  shows "\<exists>sched' evss w'. run_loop ticks sched w = Inr (sched', evss, w')
           \<and> length evss = length ticks"
  using assms
proof (induction ticks arbitrary: sched w)
  case Nil
  then show ?case by simp
next
  case (Cons t ticks)
  obtain js' evs w1 where r: "run_jobs t (jobs sched) w = Inr (js', evs, w1)"
    "\<forall>j \<in> set js'. well_formed j \<and> name j \<in> name ` set (jobs sched)"
    using run_jobs_well_formed[OF Cons.prems(1), of t w] by blast
  have "\<forall>j \<in> set (jobs (sched\<lparr>jobs := js'\<rparr>)). well_formed j" "running (sched\<lparr>jobs := js'\<rparr>)"
    using r(2) Cons.prems(2) by simp_all
  from Cons.IH[OF this, of w1] obtain sched' evss w2 where
    l: "run_loop ticks (sched\<lparr>jobs := js'\<rparr>) w1 = Inr (sched', evss, w2)" "length evss = length ticks"
    by blast
  have "run_loop (t # ticks) sched w = Inr (sched', evs # evss, w2)"
    using Cons.prems(2) r(1) l(1) by simp
  then show ?case using l(2) by simp
qed

lemma recurring_not_due:
  assumes "\<not> run_once job" "interval job = Some seconds" "t - last_run job < real_of_int seconds"
  shows "run_job t job w = Inr (Some job, [], w)"
  using assms by (simp add: run_job_def Let_def)

lemma recurring_due:
  assumes "\<not> run_once job" "interval job = Some seconds" "real_of_int seconds \<le> t - last_run job"
  shows "\<exists>kept evs w'. run_job t job w = Inr (Some kept, RunningBackground (name job) # evs, w')
           \<and> well_formed kept \<and> name kept = name job"
proof (cases "fn_call (func job) w")
  case (Pair r w')
  show ?thesis
    using assms Pair by (cases r) (auto simp: run_job_def Let_def well_formed_def)
qed

lemma event_not_of_other_job:
  assumes "\<forall>e \<in> set evs. event_job e \<in> name ` set js" "\<forall>j \<in> set js. name j \<noteq> n"
  shows "RunningBackground n \<notin> set evs"
proof
  assume "RunningBackground n \<in> set evs"
  then have "event_job (RunningBackground n) \<in> name ` set js" using assms(1) by blast
  then show False using assms(2) by auto
qed

lemma tick_before_due:
  assumes others: "\<forall>j \<in> set (pre @ post). well_formed j \<and> name j \<noteq> name job"
    and job: "\<not> run_once job" "interval job = Some seconds" "t - last_run job < real_of_int seconds"
  shows "\<exists>pre' post' evs w'. run_jobs t (pre @ job # post) w = Inr (pre' @ job # post', evs, w')
           \<and> (\<forall>j \<in> set (pre' @ post'). well_formed j \<and> name j \<noteq> name job)
           \<and> RunningBackground (name job) \<notin> set evs"
proof -
  obtain pre' ev1 w1 where p: "run_jobs t pre w = Inr (pre', ev1, w1)"
    "\<forall>j \<in> set pre'. well_formed j \<and> name j \<in> name ` set pre"
    "\<forall>e \<in> set ev1. event_job e \<in> name ` set pre"
    using run_jobs_well_formed[of pre t w] others by auto
  obtain post' ev2 w2 where q: "run_jobs t post w1 = Inr (post', ev2, w2)"
    "\<forall>j \<in> set post'. well_formed j \<and> name j \<in> name ` set post"
    "\<forall>e \<in> set ev2. event_job e \<in> name ` set post"
    using run_jobs_well_formed[of post t w1] others by auto
  have j: "run_job t job w1 = Inr (Some job, [], w1)"
    using job by (rule recurring_not_due)
  have "run_jobs t (job # post) w1 = Inr (job # post', ev2, w2)"
    by (simp add: j q(1))
  then have "run_jobs t (pre @ job # post) w = Inr (pre' @ job # post', ev1 @ ev2, w2)"
    by (simp add: run_jobs_append p(1))
  moreover have "\<forall>j \<in> set (pre' @ post'). well_formed j \<and> name j \<noteq> name job"
    using p(2) q(2) others by auto
  moreover have "RunningBackground (name job) \<notin> set ev1"
    using p(3) others by (intro event_not_of_other_job[of ev1 pre]) auto
  moreover have "RunningBackground (name job) \<notin> set ev2"
    using q(3) others by (intro event_not_of_other_job[of ev2 post]) auto
  ultimately show ?thesis by auto
qed

lemma tick_when_due:
  assumes others: "\<forall>j \<in> set (pre @ post). well_formed j"
    and job: "\<not> run_once job" "interval job = Some seconds" "real_of_int seconds \<le> t - last_run job"
  shows "\<exists>js' evs w'. run_jobs t (pre @ job # post) w = Inr (js', evs, w')
           \<and> (\<forall>j \<in> set js'. well_formed j)
           \<and> RunningBackground (name job) \<in> set evs"
proof -
  obtain pre' ev1 w1 where p: "run_jobs t pre w = Inr (pre', ev1, w1)"
    "\<forall>j \<in> set pre'. well_formed j \<and> name j \<in> name ` set pre"
    using run_jobs_well_formed[of pre t w] others by auto
  obtain kept evj w2 where j: "run_job t job w1 = Inr (Some kept, RunningBackground (name job) # evj, w2)"
    "well_formed kept"
    using recurring_due[OF job, of w1] by blast
  obtain post' ev2 w3 where q: "run_jobs t post w2 = Inr (post', ev2, w3)"
    "\<forall>j \<in> set post'. well_formed j \<and> name j \<in> name ` set post"
    using run_jobs_well_formed[of post t w2] others by auto
  have "run_jobs t (job # post) w1 = Inr (kept # post', (RunningBackground (name job) # evj) @ ev2, w3)"
    by (simp add: j(1) q(1))
  then have "run_jobs t (pre @ job # post) w
             = Inr (pre' @ kept # post', ev1 @ (RunningBackground (name job) # evj) @ ev2, w3)"
    by (simp add: run_jobs_append p(1))
  moreover have "\<forall>j \<in> set (pre' @ kept # post'). well_formed j"
    using p(2) q(2) j(2) by auto
  ultimately show ?thesis by auto
qed

lemma first_invocation:
  assumes "running sched" "jobs sched = pre @ job # post"
    and "\<forall>j \<in> set (pre @ post). well_formed j \<and> name j \<noteq> name job"
    and "\<not> run_once job" "interval job = Some seconds"
    and "i < length ticks" "real_of_int seconds \<le> ticks ! i - last_run job"
    and "\<forall>k<i. ticks ! k - last_run job < real_of_int seconds"
  shows "\<exists>sched' evss w'. run_loop ticks sched w = Inr (sched', evss, w')
           \<and> length evss = length ticks
           \<and> RunningBackground (name job) \<in> set (evss ! i)
           \<and> (\<forall>k<i. RunningBackground (name job) \<notin> set (evss ! k))"
  using assms
proof (induction ticks arbitrary: sched w i pre post)
  case Nil
  then show ?case by simp
next
  case (Cons t ticks)
  show ?case
  proof (cases i)
    case 0
    have due: "real_of_int seconds \<le> t - last_run job" using Cons.prems(7) 0 by simp
    have wf: "\<forall>j \<in> set (pre @ post). well_formed j" using Cons.prems(3) by blast
    obtain js' evs w1 where tick: "run_jobs t (pre @ job # post) w = Inr (js', evs, w1)"
      "\<forall>j \<in> set js'. well_formed j" "RunningBackground (name job) \<in> set evs"
      using tick_when_due[OF wf Cons.prems(4,5) due, of w] by blast
    have "\<forall>j \<in> set (jobs (sched\<lparr>jobs := js'\<rparr>)). well_formed j" "running (sched\<lparr>jobs := js'\<rparr>)"
      using tick(2) Cons.prems(1) by simp_all
    from run_loop_well_formed[OF this, of ticks w1] obtain sched' evss w2 where
      l: "run_loop ticks (sched\<lparr>jobs := js'\<rparr>) w1 = Inr (sched', evss, w2)" "length evss = length ticks"
      by blast
    have "run_loop (t # ticks) sched w = Inr (sched', evs # evss, w2)"
      using Cons.prems(1,2) tick(1) l(1) by simp
    then show ?thesis using l(2) tick(3) 0 by simp
  next
    case (Suc i')
    have notdue: "t - last_run job < real_of_int seconds"
      using Cons.prems(8)[rule_format, of 0] Suc by simp
    obtain pre' post' evs w1 where tick:
      "run_jobs t (pre @ job # post) w = Inr (pre' @ job # post', evs, w1)"
      "\<forall>j \<in> set (pre' @ post'). well_formed j \<and> name j \<noteq> name job"
      "RunningBackground (name job) \<notin> set evs"
      using tick_before_due[OF Cons.prems(3,4,5) notdue, of w] by blast
    let ?s = "sched\<lparr>jobs := pre' @ job # post'\<rparr>"
    have a1: "running ?s" using Cons.prems(1) by simp
    have a2: "jobs ?s = pre' @ job # post'" by simp
    have a6: "i' < length ticks" using Cons.prems(6) Suc by simp
    have a7: "real_of_int seconds \<le> ticks ! i' - last_run job" using Cons.prems(7) Suc by simp
    have a8: "\<forall>k<i'. ticks ! k - last_run job < real_of_int seconds"
    proof (intro allI impI)
      fix k assume "k < i'"
      then have "Suc k < i" using Suc by simp
      then show "ticks ! k - last_run job < real_of_int seconds"
        using Cons.prems(8)[rule_format, of "Suc k"] by simp
    qed
    from Cons.IH[OF a1 a2 tick(2) Cons.prems(4,5) a6 a7 a8, of w1]
    obtain sched' evss w2 where
      l: "run_loop ticks ?s w1 = Inr (sched', evss, w2)" "length evss = length ticks"
      "RunningBackground (name job) \<in> set (evss ! i')"
      "\<forall>k<i'. RunningBackground (name job) \<notin> set (evss ! k)"
      by blast
    have r: "run_loop (t # ticks) sched w = Inr (sched', evs # evss, w2)"
      using Cons.prems(1,2) tick(1) l(1) by simp
    have "\<forall>k<i. RunningBackground (name job) \<notin> set ((evs # evss) ! k)"
    proof (intro allI impI)
      fix k assume k: "k < i"
      show "RunningBackground (name job) \<notin> set ((evs # evss) ! k)"
      proof (cases k)
        case 0
        then show ?thesis using tick(3) by simp
      next
        case (Suc k')
        then have "k' < i'" using k \<open>i = Suc i'\<close> by simp
        then show ?thesis using l(4) Suc by simp
      qed
    qed
    then show ?thesis using r l(2,3) Suc by simp
  qed
qed

lemma registered_jobs_well_formed:
  "\<forall>j \<in> set (map (\<lambda>(f, secs, given).
       \<lparr>func = f, interval = secs, name = name_or given f, last_run = 0, run_once = (secs = None)\<rparr>) regs).
     well_formed j \<and> name j \<in> registered_name ` set regs"
proof
  fix j
  assume "j \<in> set (map (\<lambda>(f, secs, given).
       \<lparr>func = f, interval = secs, name = name_or given f, last_run = 0, run_once = (secs = None)\<rparr>) regs)"
  then obtain reg where reg: "reg \<in> set regs"
    "j = (case reg of (f, secs, given) \<Rightarrow>
       \<lparr>func = f, interval = secs, name = name_or given f, last_run = 0, run_once = (secs = None)\<rparr>)"
    by auto
  obtain f secs given where "reg = (f, secs, given)" by (cases reg)
  then have "well_formed j" "name j = registered_name reg"
    using reg(2) by (simp_all add: well_formed_def registered_name_def)
  then show "well_formed j \<and> name j \<in> registered_name ` set regs" using reg(1) by blast
qed

lemma registered_job_first_invocation:
  fixes ticks :: "real list"
  assumes "sched = start (register (before @ [(f, Some seconds, given)] @ after) new_scheduler)"
    and "\<forall>r \<in> set (before @ after). registered_name r \<noteq> name_or given f"
    and "i < length ticks"
    and "real_of_int seconds \<le> ticks ! i"
    and "\<forall>k<i. ticks ! k < real_of_int seconds"
  shows "\<exists>sched' evss w'. run_loop ticks sched w = Inr (sched', evss, w')
           \<and> length evss = length ticks
           \<and> RunningBackground (name_or given f) \<in> set (evss ! i)
           \<and> (\<forall>k<i. RunningBackground (name_or given f) \<notin> set (evss ! k))"
proof -
  let ?mk = "\<lambda>(f, secs, given).
       \<lparr>func = f, interval = secs, name = name_or given f, last_run = 0, run_once = (secs = None)\<rparr>"
  let ?job = "\<lparr>func = f, interval = Some seconds, name = name_or given f, last_run = 0,
               run_once = False\<rparr>"
  let ?pre = "map ?mk before" and ?post = "map ?mk after"
  have r: "running sched"
    using assms(1) by (simp add: start_def running_register new_scheduler_def)
  have j: "jobs sched = ?pre @ ?job # ?post"
    using assms(1) by (simp add: start_def jobs_register new_scheduler_def)
  have others: "\<forall>j \<in> set (?pre @ ?post). well_formed j \<and> name j \<noteq> name ?job"
  proof
    fix x assume "x \<in> set (?pre @ ?post)"
    then have "x \<in> set ?pre \<or> x \<in> set ?post" by simp
    then have "well_formed x \<and> name x \<in> registered_name ` set (before @ after)"
      using registered_jobs_well_formed[of before] registered_jobs_well_formed[of after] by auto
    then show "well_formed x \<and> name x \<noteq> name ?job" using assms(2) by auto
  qed
  have a4: "\<not> run_once ?job" and a5: "interval ?job = Some seconds" by simp_all
  have a7: "real_of_int seconds \<le> ticks ! i - last_run ?job" using assms(4) by simp
  have a8: "\<forall>k<i. ticks ! k - last_run ?job < real_of_int seconds" using assms(5) by simp
  from first_invocation[OF r j others a4 a5 assms(3) a7 a8, of w]
  show ?thesis by simp
qed

text \<open>
  The interval of a new job is counted from clock reading 0, not from the reading at
  registration: the job is first invoked at the first tick whose reading is at least the
  interval, and when the first tick already reads that much, as it does with
  \<^verbatim>\<open>time.time()\<close>, the job is invoked at the first tick, whatever other jobs there are.
\<close>

lemma recurring_job_fires_at_first_tick:
  fixes ticks :: "real list"
  assumes "sched = start (register (before @ [(f, Some seconds, given)] @ after) new_scheduler)"
    and "\<forall>r \<in> set (before @ after). registered_name r \<noteq> name_or given f"
    and "ticks \<noteq> []"
    and "real_of_int seconds \<le> ticks ! 0"
  shows "\<exists>sched' evss w'. run_loop ticks sched w = Inr (sched', evss, w')
           \<and> RunningBackground (name_or given f) \<in> set (evss ! 0)"
proof -
  have "0 < length ticks" using assms(3) by simp
  moreover have "\<forall>k<0::nat. ticks ! k < real_of_int seconds" by simp
  ultimately show ?thesis
    using registered_job_first_invocation[OF assms(1,2) _ assms(4), of w] by blast
qed

text \<open>
  Claim C1. A recurring job with interval 5, registered before the scheduler is started,
  is first invoked at the first tick at which 5 seconds have passed since registration,
  and at no tick before. The code does not keep this. \<^verbatim>\<open>add_job\<close> never reads the
  clock and sets \<^verbatim>\<open>last_run\<close> to 0, so the first tick compares \<^verbatim>\<open>time.time()\<close>
  itself, the seconds since 1970, with the interval. With the job registered and the
  scheduler started when the clock reads 1762214400, the tick at that very reading calls
  the action, 0 seconds after registration: the world, which counts the calls, goes from
  0 to 1, and \<^verbatim>\<open>last_run\<close> becomes that reading. The next tick, a second later, calls
  nothing.
\<close>

theorem recurring_job_runs_at_first_tick_after_registration:
  "run_loop [1762214400, 1762214401] refresh_scheduler (0::nat)
   = Inr (\<lparr>jobs = [refresh_job\<lparr>last_run := 1762214400\<rparr>], running = True\<rparr>,
          [[RunningBackground ''refresh'', CompletedBackground ''refresh''], []],
          1)"
  by (simp add: refresh_scheduler_def start_def add_job_def new_scheduler_def name_or_def
      run_job_def refresh_job_def counting_action_def Let_def)

lemma failed_run_caught:
  assumes "\<not> run_once job" "interval job = Some seconds"
    "real_of_int seconds \<le> current_time - last_run job"
    "fn_call (func job) w = (Raised e, w')"
  shows "run_job current_time job w
         = Inr (Some job, [RunningBackground (name job), ErrorBackground (name job) e], w')"
  using assms by (simp add: run_job_def Let_def)

lemma last_run_changes_on_success:
  assumes "run_job t j w0 = Inr (Some j', evs0, w1)" "last_run j' \<noteq> last_run j"
  shows "fst (fn_call (func j) w0) = Returned \<and> last_run j' = t"
proof (cases "fn_call (func j) w0")
  case (Pair r w')
  show ?thesis
    using assms Pair
    by (cases r) (auto simp: run_job_def Let_def split: if_splits option.splits)
qed

lemma run_loop_tick:
  assumes "running sched" "run_jobs t (jobs sched) w = Inr (js', evs, w1)"
    "run_loop later (sched\<lparr>jobs := js'\<rparr>) w1 = Inr (sched', evss, w2)"
  shows "run_loop (t # later) sched w = Inr (sched', evs # evss, w2)"
  using assms by simp

text \<open>
  Claim C8. When the action of a recurring job that is due raises, the exception is
  caught: the job stays as it is, with \<^verbatim>\<open>last_run\<close> unchanged, the rest of the tick
  runs, and at the next tick (any clock reading not before this one) the job is due and
  its action is invoked again; with that job alone the loop logs the error at one tick
  and runs the job at the next. And whenever handling a job changes its
  \<^verbatim>\<open>last_run\<close>, its action has returned, and the new value is the tick's clock reading.
\<close>

theorem failed_recurring_job_is_retried:
  "(\<not> run_once job \<and> interval job = Some seconds
      \<and> real_of_int seconds \<le> current_time - last_run job
      \<and> fn_call (func job) w = (Raised e, w') \<longrightarrow>
        run_job current_time job w
          = Inr (Some job, [RunningBackground (name job), ErrorBackground (name job) e], w')
        \<and> run_jobs current_time (job # rest) w
            = (case run_jobs current_time rest w' of
                 Inl err \<Rightarrow> Inl err
               | Inr (jobs', evs', w'') \<Rightarrow>
                   Inr (job # jobs',
                        [RunningBackground (name job), ErrorBackground (name job) e] @ evs', w''))
        \<and> (current_time \<le> next_time \<longrightarrow>
             (\<exists>kept evs w3. run_job next_time job w2
                              = Inr (kept, RunningBackground (name job) # evs, w3))
             \<and> (running sched \<and> jobs sched = [job] \<longrightarrow>
                  (\<exists>sched' evs w3. run_loop [current_time, next_time] sched w
                     = Inr (sched',
                            [[RunningBackground (name job), ErrorBackground (name job) e],
                             RunningBackground (name job) # evs], w3)))))
   \<and> (run_job t j w0 = Inr (Some j', evs0, w1) \<and> last_run j' \<noteq> last_run j \<longrightarrow>
        fst (fn_call (func j) w0) = Returned \<and> last_run j' = t)"
proof (intro conjI impI)
  assume a: "\<not> run_once job \<and> interval job = Some seconds
      \<and> real_of_int seconds \<le> current_time - last_run job
      \<and> fn_call (func job) w = (Raised e, w')"
  then have a1: "\<not> run_once job" and a2: "interval job = Some seconds"
    and a3: "real_of_int seconds \<le> current_time - last_run job"
    and a4: "fn_call (func job) w = (Raised e, w')"
    by blast+
  have caught: "run_job current_time job w
          = Inr (Some job, [RunningBackground (name job), ErrorBackground (name job) e], w')"
    using a1 a2 a3 a4 by (rule failed_run_caught)
  show "run_job current_time job w
          = Inr (Some job, [RunningBackground (name job), ErrorBackground (name job) e], w')"
    by (rule caught)
  show "run_jobs current_time (job # rest) w
            = (case run_jobs current_time rest w' of
                 Inl err \<Rightarrow> Inl err
               | Inr (jobs', evs', w'') \<Rightarrow>
                   Inr (job # jobs',
                        [RunningBackground (name job), ErrorBackground (name job) e] @ evs', w''))"
  proof (cases "run_jobs current_time rest w'")
    case (Inl err)
    then show ?thesis by (simp add: caught)
  next
    case (Inr r)
    then show ?thesis by (cases r) (simp add: caught)
  qed
  assume later: "current_time \<le> next_time"
  have due: "real_of_int seconds \<le> next_time - last_run job" using a3 later by linarith
  have again: "\<exists>kept evs w3. run_job next_time job v
                 = Inr (Some kept, RunningBackground (name job) # evs, w3)" for v
    using recurring_due[OF a1 a2 due, of v] by blast
  show "\<exists>kept evs w3. run_job next_time job w2 = Inr (kept, RunningBackground (name job) # evs, w3)"
    using again[of w2] by blast
  assume s: "running sched \<and> jobs sched = [job]"
  obtain kept evs w3 where k: "run_job next_time job w'
                 = Inr (Some kept, RunningBackground (name job) # evs, w3)"
    using again[of w'] by blast
  have r: "running sched" and js: "jobs sched = [job]" using s by blast+
  have t1: "run_jobs current_time (jobs sched) w
            = Inr ([job], [RunningBackground (name job), ErrorBackground (name job) e], w')"
    by (simp add: js caught)
  have same: "sched\<lparr>jobs := [job]\<rparr> = sched" using js by simp
  have t2: "run_jobs next_time (jobs sched) w' = Inr ([kept], RunningBackground (name job) # evs, w3)"
    by (simp add: js k)
  have l0: "run_loop [] (sched\<lparr>jobs := [kept]\<rparr>) w3 = Inr (sched\<lparr>jobs := [kept]\<rparr>, [], w3)"
    by simp
  have l1: "run_loop [next_time] sched w'
        = Inr (sched\<lparr>jobs := [kept]\<rparr>, [RunningBackground (name job) # evs], w3)"
    using r t2 l0 by (rule run_loop_tick)
  have l1': "run_loop [next_time] (sched\<lparr>jobs := [job]\<rparr>) w'
        = Inr (sched\<lparr>jobs := [kept]\<rparr>, [RunningBackground (name job) # evs], w3)"
    using l1 by (simp only: same)
  have "run_loop [current_time, next_time] sched w
        = Inr (sched\<lparr>jobs := [kept]\<rparr>,
               [[RunningBackground (name job), ErrorBackground (name job) e],
                RunningBackground (name job) # evs], w3)"
    using r t1 l1' by (rule run_loop_tick)
  then show "\<exists>sched' evs w3. run_loop [current_time, next_time] sched w
                     = Inr (sched',
                            [[RunningBackground (name job), ErrorBackground (name job) e],
                             RunningBackground (name job) # evs], w3)"
    by blast
next
  assume "run_job t j w0 = Inr (Some j', evs0, w1) \<and> last_run j' \<noteq> last_run j"
  then show "fst (fn_call (func j) w0) = Returned" "last_run j' = t"
    using last_run_changes_on_success[of t j w0 j' evs0 w1] by simp_all
qed

theorem failed_recurring_job_is_retried_witness:
  "run_job 2.2 flaky_job (0::nat)
     = Inr (Some flaky_job,
            [RunningBackground ''flaky'', ErrorBackground ''flaky'' ''database is locked''], 0)
   \<and> (\<exists>kept evs w3. run_job 3.3 flaky_job (0::nat) = Inr (kept, RunningBackground ''flaky'' # evs, w3))
   \<and> (\<exists>sched' evs w3. run_loop [2.2, 3.3] flaky_scheduler (0::nat)
          = Inr (sched',
                 [[RunningBackground ''flaky'', ErrorBackground ''flaky'' ''database is locked''],
                  RunningBackground ''flaky'' # evs], w3))
   \<and> run_job 5.5 refresh_job (0::nat)
       = Inr (Some (refresh_job\<lparr>last_run := 5.5\<rparr>),
              [RunningBackground ''refresh'', CompletedBackground ''refresh''], 1)
   \<and> fst (fn_call (func refresh_job) (0::nat)) = Returned"
proof -
  have h: "\<not> run_once flaky_job \<and> interval flaky_job = Some 2
      \<and> real_of_int 2 \<le> 2.2 - last_run flaky_job
      \<and> fn_call (func flaky_job) (0::nat) = (Raised ''database is locked'', 0)"
    by (simp add: flaky_job_def failing_action_def)
  have nm: "name flaky_job = ''flaky''" by (simp add: flaky_job_def)
  have later: "(2.2::real) \<le> 3.3" by simp
  have s: "running flaky_scheduler \<and> jobs flaky_scheduler = [flaky_job]"
    by (simp add: flaky_scheduler_def)
  note t = failed_recurring_job_is_retried[where job = flaky_job and seconds = 2
      and current_time = "2.2" and w = "0::nat" and e = "''database is locked''" and w' = "0::nat"
      and next_time = "3.3" and ?w2.0 = "0::nat" and sched = flaky_scheduler and rest = "[]",
      THEN conjunct1, rule_format, OF h, unfolded nm]
  have c1: "run_job 2.2 flaky_job (0::nat)
     = Inr (Some flaky_job,
            [RunningBackground ''flaky'', ErrorBackground ''flaky'' ''database is locked''], 0)"
    by (rule t[THEN conjunct1])
  have c2: "\<exists>kept evs w3. run_job 3.3 flaky_job (0::nat) = Inr (kept, RunningBackground ''flaky'' # evs, w3)"
    using t[THEN conjunct2, THEN conjunct2] later by blast
  have c3: "\<exists>sched' evs w3. run_loop [2.2, 3.3] flaky_scheduler (0::nat)
          = Inr (sched',
                 [[RunningBackground ''flaky'', ErrorBackground ''flaky'' ''database is locked''],
                  RunningBackground ''flaky'' # evs], w3)"
    using t[THEN conjunct2, THEN conjunct2] later s by blast
  have ok: "run_job 5.5 refresh_job (0::nat)
       = Inr (Some (refresh_job\<lparr>last_run := 5.5\<rparr>),
              [RunningBackground ''refresh'', CompletedBackground ''refresh''], 1)"
    by (simp add: run_job_def refresh_job_def counting_action_def Let_def)
  have changed: "last_run (refresh_job\<lparr>last_run := 5.5\<rparr>) \<noteq> last_run refresh_job"
    by (simp add: refresh_job_def)
  have c4: "fst (fn_call (func refresh_job) (0::nat)) = Returned"
    using ok changed
      failed_recurring_job_is_retried[where t = "5.5" and j = refresh_job and ?w0.0 = "0::nat"
        and j' = "refresh_job\<lparr>last_run := 5.5\<rparr>"
        and ?evs0.0 = "[RunningBackground ''refresh'', CompletedBackground ''refresh'']"
        and ?w1.0 = "1::nat", THEN conjunct2]
    by blast
  show ?thesis using c1 c2 c3 ok c4 by (simp only: simp_thms)
qed

end
